theory Spec2Isabelle
  imports Main "HOL-Library.Sublist" "HOL-Library.AList"
begin

section \<open>The pathtree package: data model\<close>

text \<open>
  The development follows the richest of the three source variants (the one whose
  wildcards carry \<open>Min\<close>/\<open>Max\<close> bounds and whose padding groups are lists of
  alternatives). Go strings are byte sequences and are modelled as \<open>string\<close>; Go
  \<open>int\<close> values (lengths, insertion orders, bounds) are modelled as \<open>int\<close>. The
  insertion counter would need \<open>2^63\<close> calls of \<open>Add\<close> to wrap around, so it is
  kept unbounded. The slices that \<open>add\<close> and \<open>reverse\<close> build are each extended
  along one line of calls and never read again by an earlier holder, so they are
  modelled as lists. The expansions of \<open>find\<close> are different: one slice is
  appended to several times, and the results can share an array; they are modelled
  with their arrays (section on slices below).
\<close>

record Wildcard =
  Name :: string
  Min_w :: int
  Max_w :: int

text \<open>
  \<open>addEdge\<close> builds one \<open>Edge\<close> value, stores a copy of it in the map of the owning
  node and lets the new child node point to the original (\<open>element.node.parent = &element\<close>).
  That original is never written again, and its \<open>parent\<close> field leads to the owning
  node, whose own \<open>parent\<close> pointer was fixed when it was created. The chain of
  pointers followed by \<open>reverse\<close> from a node up to the root is therefore immutable,
  and it is modelled by its contents: the list of the edges passed, nearest first,
  the empty list being the \<open>nil\<close> parent of the root.
\<close>

record ParentEdge =
  padding_p :: "string list list"
  wildcards_p :: "Wildcard list"
  wildend_p :: bool
  minorder_p :: int

text \<open>
  A leaf points to the node owning it; \<open>Reverse\<close> reads nothing of that node but its
  parent chain, so the pointer is modelled as that chain, \<open>None\<close> being \<open>nil\<close>.
\<close>

record 'v Leaf =
  Value :: 'v
  Wildcards :: "Wildcard list"
  order :: int
  parent_l :: "ParentEdge list option"
  slashend :: bool

text \<open>
  The Go map \<open>edges\<close> is an association list, new keys appended at the end. Go
  iterates over a map in an unspecified order; \<open>find_node\<close> below iterates in list
  order, the order in which the keys were added.
\<close>

datatype 'v Node =
  Node (edges: "(string \<times> 'v Edge) list") (leaf: "'v Leaf option") (star: "'v Leaf option")
       (leafs: int) (parent: "ParentEdge list")
and 'v Edge =
  Edge (node: "'v Node") (padding: "string list list") (wildcards: "Wildcard list")
       (wildend: bool) (minorder: int)

datatype error = InvalidPattern | DuplicatePath | IndexOutOfRange

text \<open>
  \<open>InvalidPattern\<close> and \<open>DuplicatePath\<close> are the two error values returned by \<open>Add\<close>;
  \<open>IndexOutOfRange\<close> stands for the run-time panic of an index or slice expression
  out of range.
\<close>

section \<open>Library functions of Go used by the package\<close>

text \<open>\<open>strings.Index\<close>: the position of the first occurrence, or \<open>-1\<close>.\<close>

fun strings_Index :: "string \<Rightarrow> string \<Rightarrow> int" where
  "strings_Index [] sub = (if sub = [] then 0 else -1)"
| "strings_Index (c # cs) sub =
     (if prefix sub (c # cs) then 0
      else (let r = strings_Index cs sub in if r < 0 then -1 else r + 1))"

text \<open>\<open>strings.Split\<close> and \<open>strings.Count\<close> are only called with one-byte separators.\<close>

fun strings_Split :: "string \<Rightarrow> char \<Rightarrow> string list" where
  "strings_Split [] sep = [[]]"
| "strings_Split (c # cs) sep =
     (if c = sep then [] # strings_Split cs sep
      else (case strings_Split cs sep of
              [] \<Rightarrow> [[c]]
            | w # ws \<Rightarrow> (c # w) # ws))"

fun strings_Join :: "string list \<Rightarrow> string \<Rightarrow> string" where
  "strings_Join [] sep = []"
| "strings_Join [x] sep = x"
| "strings_Join (x # y # ys) sep = x @ sep @ strings_Join (y # ys) sep"

definition strings_Count :: "string \<Rightarrow> char \<Rightarrow> nat" where
  "strings_Count s c = length (filter (\<lambda>x. x = c) s)"

text \<open>
  \<open>strconv.Atoi\<close> in base 10 on a 64-bit platform: an optional sign, at least one
  digit, nothing else, and the value within the range of \<open>int\<close>.
\<close>

definition is_digit :: "char \<Rightarrow> bool" where
  "is_digit c = (48 \<le> (of_char c :: nat) \<and> (of_char c :: nat) \<le> 57)"

fun digits_value :: "int \<Rightarrow> string \<Rightarrow> int" where
  "digits_value acc [] = acc"
| "digits_value acc (c # cs) = digits_value (acc * 10 + (int (of_char c) - 48)) cs"

definition strconv_Atoi :: "string \<Rightarrow> int option" where
  "strconv_Atoi s =
     (let (neg, ds) = (case s of
                         [] \<Rightarrow> (False, [])
                       | c # cs \<Rightarrow> if c = CHR ''-'' then (True, cs)
                                  else if c = CHR ''+'' then (False, cs)
                                  else (False, s))
      in if ds = [] \<or> \<not> list_all is_digit ds then None
         else (let v = (if neg then - digits_value 0 ds else digits_value 0 ds)
               in if - (2 ^ 63) \<le> v \<and> v < 2 ^ 63 then Some v else None))"

text \<open>\<open>strconv.Itoa\<close>: the decimal representation.\<close>

fun nat_digits :: "nat \<Rightarrow> nat \<Rightarrow> string" where
  "nat_digits 0 n = []"
| "nat_digits (Suc fuel) n =
     (if n < 10 then [char_of (48 + n)]
      else nat_digits fuel (n div 10) @ [char_of (48 + n mod 10)])"

definition strconv_Itoa :: "int \<Rightarrow> string" where
  "strconv_Itoa i =
     (if i < 0 then CHR ''-'' # nat_digits (Suc (nat (- i))) (nat (- i))
      else nat_digits (Suc (nat i)) (nat i))"

text \<open>The slice expression \<open>s[lo:hi]\<close>, used where the source has checked the bounds.\<close>

definition slice :: "'a list \<Rightarrow> nat \<Rightarrow> nat \<Rightarrow> 'a list" where
  "slice s lo hi = take (hi - lo) (drop lo s)"

section \<open>The pattern compiler\<close>

text \<open>
  \<open>splitPath\<close> reads \<open>elements[len(elements)-1]\<close> after it may have dropped the only
  element; that read panics on the empty key.
\<close>

definition splitPath :: "string \<Rightarrow> error + (string list \<times> bool)" where
  "splitPath key =
     (let elements = strings_Split key CHR ''/'';
          elements = (if hd elements = [] then tl elements else elements)
      in if elements = [] then Inl IndexOutOfRange
         else if last elements = [] then Inr (butlast elements, True)
         else Inr (elements, False))"

text \<open>
  The loop of \<open>splitInput\<close>: \<open>a\<close> holds the entries \<open>a[0:na]\<close> written so far, so
  \<open>na\<close> is \<open>length a\<close>.
\<close>

function splitInput_loop :: "string \<Rightarrow> nat \<Rightarrow> nat \<Rightarrow> nat \<Rightarrow> string list \<Rightarrow> bool \<Rightarrow> string list" where
  "splitInput_loop s n i start a inw =
     (if i + 1 \<le> length s \<and> length a + 1 < n then
        (if (s ! i = CHR '':'' \<and> \<not> inw) \<or> (s ! i = CHR '';'' \<and> inw)
         then splitInput_loop s n (i + 1) (i + 1) (a @ [slice s start i]) (\<not> inw)
         else splitInput_loop s n (i + 1) start a inw)
      else a @ [drop start s])"
  by pat_completeness auto
termination
  by (relation "measure (\<lambda>(s, n, i, start, a, inw). length s - i)") auto

declare splitInput_loop.simps [simp del]

definition splitInput :: "string \<Rightarrow> string list" where
  "splitInput s =
     (if s = [] then [s]
      else splitInput_loop s (strings_Count s CHR '':'' + strings_Count s CHR '';'' + 1) 0 0 [] False)"

function splitPad_loop :: "string \<Rightarrow> nat \<Rightarrow> nat \<Rightarrow> nat \<Rightarrow> string list \<Rightarrow> string list" where
  "splitPad_loop s n i start a =
     (if i + 1 \<le> length s \<and> length a + 1 < n then
        (if s ! i = CHR ''|''
         then splitPad_loop s n (i + 1) (i + 1) (a @ [slice s start i])
         else splitPad_loop s n (i + 1) start a)
      else a @ [drop start s])"
  by pat_completeness auto
termination
  by (relation "measure (\<lambda>(s, n, i, start, a). length s - i)") auto

declare splitPad_loop.simps [simp del]

definition splitPad :: "string \<Rightarrow> string list" where
  "splitPad s =
     (if s = [] then [s]
      else splitPad_loop s (strings_Count s CHR ''|'' + 1) 0 0 [])"

text \<open>
  \<open>decodeWildcard\<close> reads \<open>s[0]\<close> first, which panics on the empty string. Positions
  are those of \<open>strings.Index\<close> in \<open>s[1:]\<close>.
\<close>

definition decodeWildcard :: "string \<Rightarrow> error + Wildcard" where
  "decodeWildcard s =
     (if s = [] then Inl IndexOutOfRange
      else if hd s = CHR ''['' \<and> length s > 2 then
        (let pos1 = strings_Index (tl s) '',''; pos2 = strings_Index (tl s) '']'';
             plain = \<lparr>Name = s, Min_w = 0, Max_w = 0\<rparr>;
             ranged =
               (if pos1 > 0 \<and> pos2 > pos1 + 1 \<and> int (length s) > pos2 + 2 then
                  (case strconv_Atoi (slice s 1 (nat (pos1 + 1))) of
                     None \<Rightarrow> plain
                   | Some mn \<Rightarrow>
                       (case strconv_Atoi (slice s (nat (pos1 + 2)) (nat (pos2 + 1))) of
                          None \<Rightarrow> plain
                        | Some mx \<Rightarrow> \<lparr>Name = drop (nat (pos2 + 2)) s, Min_w = mn, Max_w = mx\<rparr>))
                else plain)
         in if pos1 = -1 \<and> pos2 > 0 \<and> int (length s) > pos2 + 2 then
              (case strconv_Atoi (slice s 1 (nat (pos2 + 1))) of
                 Some mn \<Rightarrow> Inr \<lparr>Name = drop (nat (pos2 + 2)) s, Min_w = mn, Max_w = mn\<rparr>
               | None \<Rightarrow> Inr ranged)
            else Inr ranged)
      else Inr \<lparr>Name = s, Min_w = 0, Max_w = 0\<rparr>)"

section \<open>The trie builder\<close>

definition New :: "'v Node" where
  "New = Node [] None None 0 []"

text \<open>
  The loop of \<open>add\<close> that splits the parts of a segment into padding groups and
  wildcards, padding first. The two arrays are filled from left to right, so they
  are built as lists; \<open>decodeWildcard\<close> may panic.
\<close>

fun splitParts :: "bool \<Rightarrow> string list \<Rightarrow> error + (string list list \<times> Wildcard list)" where
  "splitParts inw [] = Inr ([], [])"
| "splitParts inw (v # rest) =
     (if \<not> inw then
        (case splitParts True rest of
           Inl e \<Rightarrow> Inl e
         | Inr (paddings, variables) \<Rightarrow> Inr (splitPad v # paddings, variables))
      else
        (case decodeWildcard v of
           Inl e \<Rightarrow> Inl e
         | Inr w \<Rightarrow>
             (case splitParts False rest of
                Inl e \<Rightarrow> Inl e
              | Inr (paddings, variables) \<Rightarrow> Inr (paddings, w # variables))))"

text \<open>The test \<open>len(el) > 0 && el[0] == '*'\<close> for a rest-of-path segment.\<close>

definition is_star :: "string \<Rightarrow> bool" where
  "is_star el = (el \<noteq> [] \<and> hd el = CHR ''*'')"

text \<open>The key of a segment in the map of edges: one trailing \<open>;\<close> is removed.\<close>

definition representation :: "string \<Rightarrow> string" where
  "representation el = (if el \<noteq> [] \<and> last el = CHR '';'' then butlast el else el)"

definition snapshot :: "string list list \<Rightarrow> Wildcard list \<Rightarrow> bool \<Rightarrow> int \<Rightarrow> ParentEdge" where
  "snapshot paddings variables we ord =
     \<lparr>padding_p = paddings, wildcards_p = variables, wildend_p = we, minorder_p = ord\<rparr>"

text \<open>
  \<open>addEdge\<close> followed by the recursive call on the new child: the child starts as
  \<open>New()\<close> with its parent set. When the edge exists already, the source lowers
  \<open>minorder\<close> on \<open>item\<close>, which is a copy of the map entry (the map holds \<open>Edge\<close>
  values, not pointers), so the entry itself keeps its \<open>minorder\<close>; only the child
  node, reached through a pointer, changes.
\<close>

fun add :: "'v Node \<Rightarrow> int \<Rightarrow> string list \<Rightarrow> Wildcard list \<Rightarrow> bool \<Rightarrow> 'v \<Rightarrow> 'v Node \<times> (error + 'v Leaf)" where
  "add n ord [] wcs se val =
     (case leaf n of
        Some old \<Rightarrow> (n, Inl DuplicatePath)
      | None \<Rightarrow>
          (let l = \<lparr>Value = val, Wildcards = wcs, order = ord, parent_l = Some (parent n), slashend = se\<rparr>
           in (Node (edges n) (Some l) (star n) (leafs n) (parent n), Inr l)))"
| "add n ord (el0 # elements) wcs se val =
     (if is_star el0 then
        (case star n of
           Some old \<Rightarrow> (n, Inl DuplicatePath)
         | None \<Rightarrow>
             (let l = \<lparr>Value = val, Wildcards = wcs @ [\<lparr>Name = tl el0, Min_w = 0, Max_w = 0\<rparr>],
                       order = ord, parent_l = Some (parent n), slashend = se\<rparr>
              in (Node (edges n) (leaf n) (Some l) (leafs n) (parent n), Inr l)))
      else
        (let el = representation el0 in
         case splitParts False (splitInput el) of
           Inl e \<Rightarrow> (n, Inl e)
         | Inr (paddings, variables) \<Rightarrow>
             (let we = (length paddings = length variables) in
              case map_of (edges n) el of
                Some item \<Rightarrow>
                  (let (child, r) = add (node item) ord elements (wcs @ variables) se val
                   in (Node (AList.update el (Edge child (padding item) (wildcards item) (wildend item) (minorder item)) (edges n))
                         (leaf n) (star n) (leafs n) (parent n), r))
              | None \<Rightarrow>
                  (let fresh = Node [] None None 0 (snapshot paddings variables we ord # parent n);
                       (child, r) = add fresh ord elements (wcs @ variables) se val
                   in (Node (AList.update el (Edge child paddings variables we ord) (edges n))
                         (leaf n) (star n) (leafs n) (parent n), r)))))"

text \<open>\<open>Add\<close> reads \<open>key[0]\<close> without checking the length, which panics on the empty key.\<close>

definition Add :: "'v Node \<Rightarrow> string \<Rightarrow> 'v \<Rightarrow> 'v Node \<times> (error + 'v Leaf)" where
  "Add n key val =
     (if key = [] then (n, Inl IndexOutOfRange)
      else if hd key \<noteq> CHR ''/'' then (n, Inl InvalidPattern)
      else
        (let n1 = Node (edges n) (leaf n) (star n) (leafs n + 1) (parent n) in
         case splitPath key of
           Inl e \<Rightarrow> (n1, Inl e)
         | Inr (elements, se) \<Rightarrow> add n1 (leafs n1) elements [] se val))"

section \<open>The matcher\<close>

definition out_of_bounds :: "Wildcard \<Rightarrow> int \<Rightarrow> bool" where
  "out_of_bounds item len = ((Min_w item \<noteq> 0 \<and> len < Min_w item) \<or> (Max_w item \<noteq> 0 \<and> len > Max_w item))"

text \<open>
  The inner loop of \<open>find_node\<close> over the alternatives of one padding group. The state is
  \<open>(found, variables, input)\<close>; \<open>continue\<close> moves to the next alternative with
  \<open>found = false\<close>, \<open>break\<close> leaves the loop.
\<close>

fun match_pads :: "Wildcard list \<Rightarrow> nat \<Rightarrow> string list \<Rightarrow> bool \<times> string list \<times> string
    \<Rightarrow> error + (bool \<times> string list \<times> string)" where
  "match_pads wcs count [] st = Inr st"
| "match_pads wcs count (pad # pads) (found, variables, input) =
     (let pos = strings_Index input pad in
      if pos = -1 \<or> (count = 0 \<and> pos > 0) then match_pads wcs count pads (False, variables, input)
      else if count \<noteq> 0 then
        (if count - 1 < length wcs then
           (if out_of_bounds (wcs ! (count - 1)) pos
            then match_pads wcs count pads (False, variables, input)
            else Inr (True, variables @ [take (nat pos) input], drop (nat pos + length pad) input))
         else Inl IndexOutOfRange)
      else Inr (True, variables, drop (nat pos + length pad) input))"

text \<open>The loop over the padding groups, left at the first group that is not found.\<close>

fun match_groups :: "Wildcard list \<Rightarrow> nat \<Rightarrow> string list list \<Rightarrow> bool \<times> string list \<times> string
    \<Rightarrow> error + (bool \<times> string list \<times> string)" where
  "match_groups wcs count [] st = Inr st"
| "match_groups wcs count (pads # rest) st =
     (case match_pads wcs count pads st of
        Inl e \<Rightarrow> Inl e
      | Inr (found, variables, input) \<Rightarrow>
          if \<not> found then Inr (found, variables, input)
          else match_groups wcs (count + 1) rest (found, variables, input))"

text \<open>
  The test of one edge against one segment, as in the body of the loop over the
  edges: \<open>None\<close> when the loop would \<open>continue\<close>, otherwise the values bound.
\<close>

definition match_edge :: "'v Edge \<Rightarrow> string \<Rightarrow> error + string list option" where
  "match_edge value el =
     (case match_groups (wildcards value) 0 (padding value) (False, [], el) of
        Inl e \<Rightarrow> Inl e
      | Inr (found, variables, input) \<Rightarrow>
          if \<not> found then Inr None
          else if wildend value then
            (if wildcards value = [] then Inl IndexOutOfRange
             else if out_of_bounds (last (wildcards value)) (int (length input)) then Inr None
             else Inr (Some (variables @ [input])))
          else Inr (Some variables))"

text \<open>
  \<open>find\<close> receives the expansions collected so far as the slice \<open>exp\<close> and appends
  to it at two places: \<open>append(exp, starExpansion)\<close> for the star of the node, and
  \<open>append(exp, variables...)\<close> for every edge that accepts the segment. A Go slice
  is a view of an array: the array, a length and a capacity. \<open>append\<close> writes behind
  the length into the array of its argument when the capacity suffices, and copies
  to a new array otherwise; with nothing to append it returns its argument. Two
  results of \<open>append\<close> on the same \<open>exp\<close> can therefore share cells, and a later
  write shows in the earlier result. The arrays are kept in a heap, a list of arrays
  addressed by position, which the search passes along; a slice names its array by
  address. The \<open>nil\<close> slice has length and capacity \<open>0\<close>, and its address is never
  used.
\<close>

record strslice =
  s_arr :: nat
  s_len :: nat
  s_cap :: nat

type_synonym heap = "string list list"

definition nil_slice :: strslice where
  "nil_slice = \<lparr>s_arr = 0, s_len = 0, s_cap = 0\<rparr>"

text \<open>The elements of a slice, as a caller reads them.\<close>

definition elems :: "strslice \<Rightarrow> heap \<Rightarrow> string list" where
  "elems s h = (if s_len s = 0 then [] else take (s_len s) (h ! s_arr s))"

text \<open>
  The capacity of a new array is chosen by the Go implementation; the language only
  asks that it suffices. The choice is the parameter \<open>grow\<close>, a function of the old
  capacity and the length needed, and a result below the length needed is raised to
  it.
\<close>

definition append_slice :: "(nat \<Rightarrow> nat \<Rightarrow> nat) \<Rightarrow> strslice \<Rightarrow> string list \<Rightarrow> heap \<Rightarrow> strslice \<times> heap" where
  "append_slice grow s xs h =
     (let n = s_len s + length xs in
      if xs = [] then (s, h)
      else if n \<le> s_cap s then
        (s\<lparr>s_len := n\<rparr>,
         h[s_arr s := take (s_len s) (h ! s_arr s) @ xs @ drop n (h ! s_arr s)])
      else
        (let c = max n (grow (s_cap s) n) in
         (\<lparr>s_arr = length h, s_len = n, s_cap = c\<rparr>,
          h @ [elems s h @ xs @ replicate (c - n) []])))"

text \<open>
  The choice of the runtime of the gc compiler (\<open>runtime.growslice\<close>) while the
  capacity is below 256: the length needed when it exceeds twice the old capacity,
  twice the old capacity otherwise. The allocator rounds the result up to a size
  class; on a 64-bit platform, where a string takes 16 bytes, that changes nothing
  for a slice of at most sixteen strings. The examples below stay within four.
\<close>

definition growslice :: "nat \<Rightarrow> nat \<Rightarrow> nat" where
  "growslice oldCap newLen = (if 2 * oldCap < newLen then newLen else 2 * oldCap)"

text \<open>
  \<open>find\<close> and its loop over the edges. The loop carries the named results
  \<open>(leaf, expansions)\<close>; a panic of the edge test ends the search.
\<close>

fun find_node :: "(nat \<Rightarrow> nat \<Rightarrow> nat) \<Rightarrow> 'v Node \<Rightarrow> string list \<Rightarrow> strslice \<Rightarrow> heap
    \<Rightarrow> error + ('v Leaf option \<times> strslice \<times> heap)"
and find_edges :: "(nat \<Rightarrow> nat \<Rightarrow> nat) \<Rightarrow> (string \<times> 'v Edge) list \<Rightarrow> string \<Rightarrow> string list \<Rightarrow> strslice
    \<Rightarrow> 'v Leaf option \<times> strslice \<Rightarrow> heap \<Rightarrow> error + ('v Leaf option \<times> strslice \<times> heap)" where
  "find_node grow n [] exp h = Inr (leaf n, exp, h)"
| "find_node grow n (el # elements) exp h =
     (case star n of
        None \<Rightarrow> find_edges grow (edges n) el elements exp (None, nil_slice) h
      | Some s \<Rightarrow>
          (case append_slice grow exp [strings_Join (el # elements) ''/''] h of
             (expansions, h') \<Rightarrow> find_edges grow (edges n) el elements exp (Some s, expansions) h'))"
| "find_edges grow [] el elements exp (lf, expansions) h = Inr (lf, expansions, h)"
| "find_edges grow ((k, value) # rest) el elements exp (lf, expansions) h =
     (if lf \<noteq> None \<and> order (the lf) < minorder value
      then find_edges grow rest el elements exp (lf, expansions) h
      else
        (case match_edge value el of
           Inl e \<Rightarrow> Inl e
         | Inr None \<Rightarrow> find_edges grow rest el elements exp (lf, expansions) h
         | Inr (Some variables) \<Rightarrow>
             (case append_slice grow exp variables h of
                (exp', h') \<Rightarrow>
                  (case find_node grow (node value) elements exp' h' of
                     Inl e \<Rightarrow> Inl e
                   | Inr (testleaf, testexpansions, h'') \<Rightarrow>
                       if testleaf \<noteq> None \<and> (lf = None \<or> order (the lf) > order (the testleaf))
                       then find_edges grow rest el elements exp (testleaf, testexpansions) h''
                       else find_edges grow rest el elements exp (lf, expansions) h''))))"

text \<open>
  \<open>Find\<close> starts the search with the \<open>nil\<close> slice; no array exists yet. Its second
  result is the slice returned, given here by the elements read from it when
  \<open>Find\<close> returns.
\<close>

definition Find :: "(nat \<Rightarrow> nat \<Rightarrow> nat) \<Rightarrow> 'v Node \<Rightarrow> string \<Rightarrow> error + ('v Leaf option \<times> string list)" where
  "Find grow n key =
     (if key = [] \<or> hd key \<noteq> CHR ''/'' then Inr (None, [])
      else
        (case splitPath key of
           Inl e \<Rightarrow> Inl e
         | Inr (elements, se) \<Rightarrow>
             (case find_node grow n elements nil_slice [] of
                Inl e \<Rightarrow> Inl e
              | Inr (lf, expansions, h) \<Rightarrow> Inr (lf, elems expansions h))))"

section \<open>The reverser\<close>

text \<open>
  \<open>Reverse\<close> receives a Go map, which is a reference: \<open>delete\<close> changes the map of
  the caller, and the map returned is the one received. The maps in memory are
  therefore kept in a store, by address, and the functions of the reverser take the
  address of \<open>variables\<close> and pass the store along.
\<close>

type_synonym vars = "string \<rightharpoonup> string"

type_synonym store = "nat \<Rightarrow> vars"

definition descriptor :: "Wildcard \<Rightarrow> string" where
  "descriptor w = ''['' @ strconv_Itoa (Min_w w) @ '','' @ strconv_Itoa (Max_w w) @ '']'' @ Name w"

text \<open>
  The loop of \<open>reverse\<close> over the wildcards of one edge; \<open>key\<close> is the loop index,
  \<open>(output, missed)\<close> the local state. \<open>edge.padding[key][0]\<close> panics when the group
  is missing or empty.
\<close>

fun reverse_loop :: "string list list \<Rightarrow> nat \<Rightarrow> Wildcard list \<Rightarrow> nat \<Rightarrow> string \<times> string list \<Rightarrow> store
    \<Rightarrow> (error + string \<times> string list) \<times> store" where
  "reverse_loop pad key [] variables st h = (Inr st, h)"
| "reverse_loop pad key (w # ws) variables (output, missed) h =
     (let (item, ok) = (case h variables (Name w) of
                          None \<Rightarrow> ([], False)
                        | Some v \<Rightarrow> (v, True));
          bad = (\<not> ok \<or> out_of_bounds w (int (length item)));
          item = (if bad then [] else item);
          ok = (if bad then False else ok);
          missed = (if bad then missed @ [descriptor w] else missed)
      in if key < length pad \<and> pad ! key \<noteq> [] then
           reverse_loop pad (key + 1) ws variables (output @ hd (pad ! key) @ item, missed)
             (if ok then h(variables := (h variables)(Name w := None)) else h)
         else (Inl IndexOutOfRange, h))"

fun reverse :: "ParentEdge list \<Rightarrow> string \<Rightarrow> nat \<Rightarrow> string list \<Rightarrow> bool \<Rightarrow> store
    \<Rightarrow> (error + string \<times> nat \<times> string list) \<times> store" where
  "reverse [] exp variables missed se h = (Inr ((if se then exp @ ''/'' else exp), variables, missed), h)"
| "reverse (edge # up) exp variables missed se h =
     (case reverse_loop (padding_p edge) 0 (wildcards_p edge) variables ([], missed) h of
        (Inl e, h') \<Rightarrow> (Inl e, h')
      | (Inr (output, missed'), h') \<Rightarrow>
          if wildend_p edge then reverse up (''/'' @ output @ exp) variables missed' se h'
          else if padding_p edge \<noteq> [] \<and> last (padding_p edge) \<noteq> []
          then reverse up (''/'' @ output @ hd (last (padding_p edge)) @ exp) variables missed' se h'
          else (Inl IndexOutOfRange, h'))"

definition Reverse :: "'v Leaf option \<Rightarrow> nat \<Rightarrow> store \<Rightarrow> (error + string \<times> nat \<times> string list) \<times> store" where
  "Reverse lf variables h =
     (case lf of
        None \<Rightarrow> (Inr ([], variables, []), h)
      | Some l \<Rightarrow>
          (case parent_l l of
             None \<Rightarrow> (Inr ([], variables, []), h)
           | Some up \<Rightarrow> reverse up [] variables [] (slashend l) h))"

section \<open>Definitions used to state the properties\<close>

text \<open>The leaf that \<open>Add("/*rest", v)\<close> creates in a new trie.\<close>

definition star_leaf :: "'v \<Rightarrow> 'v Leaf" where
  "star_leaf v =
     \<lparr>Value = v, Wildcards = [\<lparr>Name = ''rest'', Min_w = 0, Max_w = 0\<rparr>], order = 1,
      parent_l = Some [], slashend = False\<rparr>"

subsection \<open>Leaves and edges of a trie\<close>

text \<open>
  All leaves stored in a trie, position by position: the leaf and the star of the
  node, then those below each edge.
\<close>

fun leaves_of :: "'v Node \<Rightarrow> 'v Leaf list"
and leaves_of_edges :: "(string \<times> 'v Edge) list \<Rightarrow> 'v Leaf list" where
  "leaves_of (Node es lf st c p) =
     (case lf of None \<Rightarrow> [] | Some l \<Rightarrow> [l]) @ (case st of None \<Rightarrow> [] | Some l \<Rightarrow> [l]) @ leaves_of_edges es"
| "leaves_of_edges [] = []"
| "leaves_of_edges ((k, Edge n pd ws we mo) # es) = leaves_of n @ leaves_of_edges es"

text \<open>All edges of a trie, at any depth.\<close>

fun edges_of :: "'v Node \<Rightarrow> 'v Edge list"
and edges_of_list :: "(string \<times> 'v Edge) list \<Rightarrow> 'v Edge list" where
  "edges_of (Node es lf st c p) = edges_of_list es"
| "edges_of_list [] = []"
| "edges_of_list ((k, Edge n pd ws we mo) # es) = Edge n pd ws we mo # edges_of n @ edges_of_list es"

subsection \<open>Well-formed tries\<close>

text \<open>
  The shape of an edge: one padding group per wildcard, one more when the edge does
  not end in a wildcard, and no group without an alternative.
\<close>

definition shape_ok :: "string list list \<Rightarrow> Wildcard list \<Rightarrow> bool \<Rightarrow> bool" where
  "shape_ok pd ws we = (length pd = length ws + (if we then 0 else 1) \<and> [] \<notin> set pd)"

definition chain_ok :: "ParentEdge list \<Rightarrow> bool" where
  "chain_ok up = list_all (\<lambda>pe. shape_ok (padding_p pe) (wildcards_p pe) (wildend_p pe)) up"

text \<open>
  A trie is well formed when its keys are distinct at every node, every edge has
  the shape above, no leaf below an edge is older than the \<open>minorder\<close> of the edge,
  and the parent pointers are those set by \<open>add\<close> and \<open>addEdge\<close>.
\<close>

fun wf_node :: "'v Node \<Rightarrow> bool"
and wf_edges :: "ParentEdge list \<Rightarrow> (string \<times> 'v Edge) list \<Rightarrow> bool" where
  "wf_node (Node es lf st c p) =
     ((case lf of None \<Rightarrow> True | Some l \<Rightarrow> parent_l l = Some p) \<and>
      (case st of None \<Rightarrow> True | Some l \<Rightarrow> parent_l l = Some p) \<and>
      distinct (map fst es) \<and> wf_edges p es)"
| "wf_edges p [] = True"
| "wf_edges p ((k, Edge n pd ws we mo) # es) =
     (shape_ok pd ws we \<and> parent n = snapshot pd ws we mo # p \<and>
      list_all (\<lambda>l. mo \<le> order l) (leaves_of n) \<and> wf_node n \<and> wf_edges p es)"

text \<open>The conditions of \<open>wf_edges\<close> on one edge.\<close>

definition edge_good :: "ParentEdge list \<Rightarrow> 'v Edge \<Rightarrow> bool" where
  "edge_good p e =
     (shape_ok (padding e) (wildcards e) (wildend e) \<and>
      parent (node e) = snapshot (padding e) (wildcards e) (wildend e) (minorder e) # p \<and>
      list_all (\<lambda>l. minorder e \<le> order l) (leaves_of (node e)) \<and> wf_node (node e))"

text \<open>
  The state of a root: well formed, without parent, no insertion order above the
  counter, no two leaves of the same order.
\<close>

definition root_inv :: "'v Node \<Rightarrow> bool" where
  "root_inv t = (wf_node t \<and> parent t = [] \<and>
            list_all (\<lambda>l. order l \<le> leafs t) (leaves_of t) \<and>
            list_all (\<lambda>e. minorder e \<le> leafs t) (edges_of t) \<and>
            distinct (map order (leaves_of t)))"

text \<open>The tries that calls of \<open>Add\<close> on the root build from \<open>New()\<close>, whatever they return.\<close>

inductive reachable :: "'v Node \<Rightarrow> bool" where
  reachable_New: "reachable New"
| reachable_Add: "reachable t \<Longrightarrow> reachable (fst (Add t key val))"

subsection \<open>What \<open>Reverse\<close> is to compute\<close>

text \<open>
  A wildcard can be substituted when the map has a value for its name and the
  length of the value is within the bounds.
\<close>

definition usable :: "Wildcard \<Rightarrow> vars \<Rightarrow> bool" where
  "usable w m = (case m (Name w) of None \<Rightarrow> False | Some v \<Rightarrow> \<not> out_of_bounds w (int (length v)))"

text \<open>
  The substitution of a sequence of wildcards, taken in order, as the specification
  words it: a usable wildcard takes its value and removes the entry from the map;
  any other takes the empty string, leaves the map as it is and adds its descriptor
  to the missing list. The result is the values substituted, the map left over and
  the missing list.
\<close>

fun substitute :: "Wildcard list \<Rightarrow> vars \<Rightarrow> string list \<times> vars \<times> string list" where
  "substitute [] m = ([], m, [])"
| "substitute (w # ws) m =
     (if usable w m
      then (case substitute ws (m(Name w := None)) of
              (vals, m', miss) \<Rightarrow> (the (m (Name w)) # vals, m', miss))
      else (case substitute ws m of
              (vals, m', miss) \<Rightarrow> ([] # vals, m', descriptor w # miss)))"

text \<open>
  The text of one segment: the first alternative of each padding group, each
  followed by the value of its wildcard, and the first alternative of the last
  group when the edge does not end in a wildcard.
\<close>

fun weave :: "string list list \<Rightarrow> string list \<Rightarrow> string" where
  "weave (g # gs) (v # vs) = hd g @ v @ weave gs vs"
| "weave gs vs = []"

definition render_edge :: "ParentEdge \<Rightarrow> string list \<Rightarrow> string" where
  "render_edge pe vals =
     weave (padding_p pe) vals @ (if wildend_p pe then [] else hd (last (padding_p pe)))"

text \<open>
  The path of a chain of edges, nearest first, from the values of all its wildcards
  in the order in which \<open>reverse\<close> meets them.
\<close>

fun render_chain :: "ParentEdge list \<Rightarrow> string list \<Rightarrow> string" where
  "render_chain [] vals = []"
| "render_chain (pe # up) vals =
     render_chain up (drop (length (wildcards_p pe)) vals) @ ''/'' @
     render_edge pe (take (length (wildcards_p pe)) vals)"

text \<open>The leaf that \<open>Add("/Archive_:[2,4]year;", x)\<close> creates in a new trie.\<close>

definition archive_leaf :: "'v \<Rightarrow> 'v Leaf" where
  "archive_leaf x =
     \<lparr>Value = x, Wildcards = [\<lparr>Name = ''year'', Min_w = 2, Max_w = 4\<rparr>], order = 1,
      parent_l = Some [\<lparr>padding_p = [[''Archive_'']],
                        wildcards_p = [\<lparr>Name = ''year'', Min_w = 2, Max_w = 4\<rparr>],
                        wildend_p = True, minorder_p = 1\<rparr>],
      slashend = False\<rparr>"

text \<open>
  The wildcards that \<open>Reverse\<close> meets for a leaf, in order: those of the edges from
  the leaf up to the root; none for a \<open>nil\<close> leaf or a leaf without parent.
\<close>

definition route_wildcards :: "'v Leaf option \<Rightarrow> Wildcard list" where
  "route_wildcards lf =
     (case lf of
        None \<Rightarrow> []
      | Some l \<Rightarrow> (case parent_l l of None \<Rightarrow> [] | Some up \<Rightarrow> concat (map wildcards_p up)))"

subsection \<open>The patterns that match a path\<close>

text \<open>
  A value is within the bounds of a wildcard; a bound of \<open>0\<close> is no bound.
\<close>

definition fits :: "Wildcard \<Rightarrow> string \<Rightarrow> bool" where
  "fits w v = ((Min_w w = 0 \<or> Min_w w \<le> int (length v)) \<and> (Max_w w = 0 \<or> int (length v) \<le> Max_w w))"

text \<open>All ways to cut a text in two.\<close>

definition cuts :: "string \<Rightarrow> (string \<times> string) list" where
  "cuts s = map (\<lambda>i. (take i s, drop i s)) [0..<Suc (length s)]"

text \<open>
  A segment matches the template of an edge when it is, from its first to its last
  character, one alternative of the first padding group, a value for the first
  wildcard, one alternative of the second group, and so on in the order of the
  template, every value within the bounds of its wildcard. \<open>decomps\<close> lists the
  values of every such reading of the segment, and is empty when there is none. It
  is written from the description of patterns, not from the scan of \<open>find\<close>.
\<close>

fun decomps :: "string list list \<Rightarrow> Wildcard list \<Rightarrow> string \<Rightarrow> string list list" where
  "decomps [] [] s = (if s = [] then [[]] else [])"
| "decomps [] (w # ws) s = []"
| "decomps (g # gs) [] s = (if gs = [] \<and> s \<in> set g then [[]] else [])"
| "decomps (g # gs) (w # ws) s =
     concat (map (\<lambda>a. if prefix a s
                       then concat (map (\<lambda>(v, r). if fits w v then map ((#) v) (decomps gs ws r) else [])
                                        (cuts (drop (length a) s)))
                       else []) g)"

definition edge_matches :: "'v Edge \<Rightarrow> string \<Rightarrow> bool" where
  "edge_matches e el = (decomps (padding e) (wildcards e) el \<noteq> [])"

text \<open>
  The leaves reached from a node along edges that pass a test, segment by segment:
  the leaf of the node when no segment is left; otherwise the star of the node, which
  stands for one or more segments, and the leaves reached below every edge that
  passes the test on the first segment. Neither insertion orders nor \<open>minorder\<close>
  play a part.
\<close>

fun routes :: "('v Edge \<Rightarrow> string \<Rightarrow> bool) \<Rightarrow> 'v Node \<Rightarrow> string list \<Rightarrow> 'v Leaf list"
and routes_edges :: "('v Edge \<Rightarrow> string \<Rightarrow> bool) \<Rightarrow> (string \<times> 'v Edge) list \<Rightarrow> string \<Rightarrow> string list \<Rightarrow> 'v Leaf list" where
  "routes P (Node es lf st c p) [] = (case lf of None \<Rightarrow> [] | Some l \<Rightarrow> [l])"
| "routes P (Node es lf st c p) (el # elements) =
     (case st of None \<Rightarrow> [] | Some s \<Rightarrow> [s]) @ routes_edges P es el elements"
| "routes_edges P [] el elements = []"
| "routes_edges P ((k, Edge n pd ws we mo) # es) el elements =
     (if P (Edge n pd ws we mo) el then routes P n elements else []) @ routes_edges P es el elements"

text \<open>
  The leaves of the registered patterns that match a path, given by its segments: a
  registered pattern is a way from the root to a leaf or a star, and it matches when
  every segment matches the template of its edge.
\<close>

definition matches :: "'v Node \<Rightarrow> string list \<Rightarrow> 'v Leaf list" where
  "matches t elements = routes edge_matches t elements"

subsection \<open>What the scan of \<open>find\<close> accepts\<close>

text \<open>
  The test that \<open>find\<close> applies to an edge, as a predicate, and the leaves reached
  along edges that pass it. These are notions of the code, used to say where its
  scan and the patterns agree.
\<close>

definition scan_accepts :: "'v Edge \<Rightarrow> string \<Rightarrow> bool" where
  "scan_accepts e el = (case match_edge e el of Inr (Some variables) \<Rightarrow> True | _ \<Rightarrow> False)"

definition scanned :: "'v Node \<Rightarrow> string list \<Rightarrow> 'v Leaf list" where
  "scanned t elements = routes scan_accepts t elements"

text \<open>
  The same leaves, each with the expansions that the values bound by \<open>match_edge\<close>
  add up to along the way, starting from \<open>exp\<close>.
\<close>

fun accepted :: "'v Node \<Rightarrow> string list \<Rightarrow> string list \<Rightarrow> ('v Leaf \<times> string list) list"
and accepted_edges :: "(string \<times> 'v Edge) list \<Rightarrow> string \<Rightarrow> string list \<Rightarrow> string list
    \<Rightarrow> ('v Leaf \<times> string list) list" where
  "accepted (Node es lf st c p) [] exp = (case lf of None \<Rightarrow> [] | Some l \<Rightarrow> [(l, exp)])"
| "accepted (Node es lf st c p) (el # elements) exp =
     (case st of None \<Rightarrow> [] | Some s \<Rightarrow> [(s, exp @ [strings_Join (el # elements) ''/''])]) @
     accepted_edges es el elements exp"
| "accepted_edges [] el elements exp = []"
| "accepted_edges ((k, Edge n pd ws we mo) # es) el elements exp =
     (case match_edge (Edge n pd ws we mo) el of
        Inr (Some variables) \<Rightarrow> accepted n elements (exp @ variables)
      | _ \<Rightarrow> []) @
     accepted_edges es el elements exp"

text \<open>The same for a key, split as \<open>Find\<close> splits it.\<close>

definition accepted_for :: "'v Node \<Rightarrow> string \<Rightarrow> ('v Leaf \<times> string list) list" where
  "accepted_for t key =
     (if key = [] \<or> hd key \<noteq> CHR ''/'' then []
      else (case splitPath key of
              Inl e \<Rightarrow> []
            | Inr (elements, se) \<Rightarrow> accepted t elements []))"

text \<open>
  The search of \<open>find_node\<close> with every \<open>append\<close> yielding a list of its own. It
  visits the same edges and compares the same insertion orders, so it finds the same
  leaf (lemma \<open>find_node_search\<close>); its expansions are those that no later write
  has touched. It serves the proofs; the properties of \<open>Find\<close> are stated on
  \<open>Find\<close>.
\<close>

fun search_node :: "'v Node \<Rightarrow> string list \<Rightarrow> string list \<Rightarrow> error + ('v Leaf option \<times> string list)"
and search_edges :: "(string \<times> 'v Edge) list \<Rightarrow> string \<Rightarrow> string list \<Rightarrow> string list
    \<Rightarrow> 'v Leaf option \<times> string list \<Rightarrow> error + ('v Leaf option \<times> string list)" where
  "search_node n [] exp = Inr (leaf n, exp)"
| "search_node n (el # elements) exp =
     (let starExpansion = (if star n \<noteq> None then strings_Join (el # elements) ''/'' else []);
          best = (case star n of
                    Some s \<Rightarrow> (Some s, exp @ [starExpansion])
                  | None \<Rightarrow> (None, []))
      in search_edges (edges n) el elements exp best)"
| "search_edges [] el elements exp best = Inr best"
| "search_edges ((k, value) # rest) el elements exp (lf, expansions) =
     (if lf \<noteq> None \<and> order (the lf) < minorder value then search_edges rest el elements exp (lf, expansions)
      else
        (case match_edge value el of
           Inl e \<Rightarrow> Inl e
         | Inr None \<Rightarrow> search_edges rest el elements exp (lf, expansions)
         | Inr (Some variables) \<Rightarrow>
             (case search_node (node value) elements (exp @ variables) of
                Inl e \<Rightarrow> Inl e
              | Inr (testleaf, testexpansions) \<Rightarrow>
                  if testleaf \<noteq> None \<and> (lf = None \<or> order (the lf) > order (the testleaf))
                  then search_edges rest el elements exp (testleaf, testexpansions)
                  else search_edges rest el elements exp (lf, expansions))))"

definition Search :: "'v Node \<Rightarrow> string \<Rightarrow> error + ('v Leaf option \<times> string list)" where
  "Search n key =
     (if key = [] \<or> hd key \<noteq> CHR ''/'' then Inr (None, [])
      else
        (case splitPath key of
           Inl e \<Rightarrow> Inl e
         | Inr (elements, se) \<Rightarrow> search_node n elements []))"

text \<open>
  A result of the search is the earliest of a set of accepted leaves when it is one
  of them and none has a smaller insertion order, or when it is \<open>nil\<close> and the set
  is empty.
\<close>

definition best_of :: "('v Leaf \<times> string list) set \<Rightarrow> 'v Leaf option \<times> string list \<Rightarrow> bool" where
  "best_of C res =
     (case fst res of
        None \<Rightarrow> C = {}
      | Some l \<Rightarrow> (l, snd res) \<in> C \<and> (\<forall>c \<in> C. order l \<le> order (fst c)))"

text \<open>The leaf that \<open>Add("/:a/:b", v)\<close> creates as the first leaf of a trie.\<close>

definition ab_leaf :: "'v \<Rightarrow> 'v Leaf" where
  "ab_leaf v =
     \<lparr>Value = v,
      Wildcards = [\<lparr>Name = ''a'', Min_w = 0, Max_w = 0\<rparr>, \<lparr>Name = ''b'', Min_w = 0, Max_w = 0\<rparr>],
      order = 1,
      parent_l = Some [\<lparr>padding_p = [[[]]], wildcards_p = [\<lparr>Name = ''b'', Min_w = 0, Max_w = 0\<rparr>],
                        wildend_p = True, minorder_p = 1\<rparr>,
                       \<lparr>padding_p = [[[]]], wildcards_p = [\<lparr>Name = ''a'', Min_w = 0, Max_w = 0\<rparr>],
                        wildend_p = True, minorder_p = 1\<rparr>],
      slashend = False\<rparr>"

subsection \<open>Edges and their keys\<close>

text \<open>
  Every edge holds what \<open>add\<close> compiles from its key: the padding groups and the
  wildcards of the parts of the key, and \<open>wildend\<close> as \<open>add\<close> computes it.
\<close>

fun keyed :: "'v Node \<Rightarrow> bool"
and keyed_edges :: "(string \<times> 'v Edge) list \<Rightarrow> bool" where
  "keyed (Node es lf st c p) = keyed_edges es"
| "keyed_edges [] = True"
| "keyed_edges ((k, Edge n pd ws we mo) # es) =
     (splitParts False (splitInput k) = Inr (pd, ws) \<and> we = (length pd = length ws) \<and>
      keyed n \<and> keyed_edges es)"

text \<open>The conditions of \<open>keyed_edges\<close> on one edge.\<close>

definition edge_keyed :: "string \<Rightarrow> 'v Edge \<Rightarrow> bool" where
  "edge_keyed k e =
     (splitParts False (splitInput k) = Inr (padding e, wildcards e) \<and>
      wildend e = (length (padding e) = length (wildcards e)) \<and> keyed (node e))"

text \<open>A trie and a later state of it, after any number of calls of \<open>Add\<close>.\<close>

inductive later :: "'v Node \<Rightarrow> 'v Node \<Rightarrow> bool" where
  later_refl: "later t t"
| later_Add: "later t t' \<Longrightarrow> later t (fst (Add t' key val))"

text \<open>A segment without wildcard markup: no colon, and no star in front.\<close>

definition literal_segment :: "string \<Rightarrow> bool" where
  "literal_segment el = (\<not> is_star el \<and> CHR '':'' \<notin> set el)"

text \<open>The leaf that \<open>Add("/not/found", v)\<close> creates as the second leaf of the trie of \<open>/:a/:b\<close>.\<close>

definition notfound_leaf :: "'v \<Rightarrow> 'v Leaf" where
  "notfound_leaf v =
     \<lparr>Value = v, Wildcards = [], order = 2,
      parent_l = Some [\<lparr>padding_p = [[''found'']], wildcards_p = [], wildend_p = False, minorder_p = 2\<rparr>,
                       \<lparr>padding_p = [[''not'']], wildcards_p = [], wildend_p = False, minorder_p = 2\<rparr>],
      slashend = False\<rparr>"

text \<open>
  A result of \<open>find_node\<close> agrees with a result of \<open>search_node\<close> when both panic,
  or both return the same leaf and expansions of the same length.
\<close>

definition agrees :: "error + ('v Leaf option \<times> strslice \<times> heap) \<Rightarrow> error + ('v Leaf option \<times> string list) \<Rightarrow> bool" where
  "agrees r a =
     (case a of
        Inl e \<Rightarrow> r = Inl e
      | Inr (l, ex) \<Rightarrow> (\<exists>s h. r = Inr (l, s, h) \<and> s_len s = length ex))"

text \<open>
  A segment without any markup: no colon, no bar, no star in front and no semicolon
  at the end. As a pattern it stands for itself.
\<close>

definition plain_segment :: "string \<Rightarrow> bool" where
  "plain_segment el =
     (\<not> is_star el \<and> CHR '':'' \<notin> set el \<and> CHR ''|'' \<notin> set el \<and> (el = [] \<or> last el \<noteq> CHR '';''))"

text \<open>The leaves that \<open>Add("/a", v)\<close> and then \<open>Add("/abc", v)\<close> create in a new trie.\<close>

definition a_leaf :: "'v \<Rightarrow> 'v Leaf" where
  "a_leaf v =
     \<lparr>Value = v, Wildcards = [], order = 1,
      parent_l = Some [\<lparr>padding_p = [[''a'']], wildcards_p = [], wildend_p = False, minorder_p = 1\<rparr>],
      slashend = False\<rparr>"

definition abc_leaf :: "'v \<Rightarrow> 'v Leaf" where
  "abc_leaf v =
     \<lparr>Value = v, Wildcards = [], order = 2,
      parent_l = Some [\<lparr>padding_p = [[''abc'']], wildcards_p = [], wildend_p = False, minorder_p = 2\<rparr>],
      slashend = False\<rparr>"

text \<open>
  The leaf that \<open>Add("/:a/:b/:c/*rest", v)\<close> creates as the second leaf of the trie
  of \<open>/:a/:b/:c/:d/zzz\<close>.
\<close>

definition rest_leaf :: "'v \<Rightarrow> 'v Leaf" where
  "rest_leaf v =
     \<lparr>Value = v,
      Wildcards = [\<lparr>Name = ''a'', Min_w = 0, Max_w = 0\<rparr>, \<lparr>Name = ''b'', Min_w = 0, Max_w = 0\<rparr>,
                   \<lparr>Name = ''c'', Min_w = 0, Max_w = 0\<rparr>, \<lparr>Name = ''rest'', Min_w = 0, Max_w = 0\<rparr>],
      order = 2,
      parent_l = Some [\<lparr>padding_p = [[[]]], wildcards_p = [\<lparr>Name = ''c'', Min_w = 0, Max_w = 0\<rparr>],
                        wildend_p = True, minorder_p = 1\<rparr>,
                       \<lparr>padding_p = [[[]]], wildcards_p = [\<lparr>Name = ''b'', Min_w = 0, Max_w = 0\<rparr>],
                        wildend_p = True, minorder_p = 1\<rparr>,
                       \<lparr>padding_p = [[[]]], wildcards_p = [\<lparr>Name = ''a'', Min_w = 0, Max_w = 0\<rparr>],
                        wildend_p = True, minorder_p = 1\<rparr>],
      slashend = False\<rparr>"

subsection \<open>Paths produced by \<open>Reverse\<close>, looked up again\<close>

text \<open>The leaves stored as \<open>leaf\<close> of a node, at any depth: all leaves but the stars.\<close>

fun plain_leaves :: "'v Node \<Rightarrow> 'v Leaf list"
and plain_leaves_edges :: "(string \<times> 'v Edge) list \<Rightarrow> 'v Leaf list" where
  "plain_leaves (Node es lf st c p) = (case lf of None \<Rightarrow> [] | Some l \<Rightarrow> [l]) @ plain_leaves_edges es"
| "plain_leaves_edges [] = []"
| "plain_leaves_edges ((k, Edge n pd ws we mo) # es) = plain_leaves n @ plain_leaves_edges es"














section \<open>Properties\<close>

subsection \<open>Keys that do not start with a slash\<close>

lemma Add_no_slash:
  "key \<noteq> [] \<Longrightarrow> hd key \<noteq> CHR ''/'' \<Longrightarrow> Add n key val = (n, Inl InvalidPattern)"
  by (simp add: Add_def)

text \<open>
  Claim C5 says that \<open>Add\<close> returns the \<open>InvalidPattern\<close> error for every key that
  does not start with a slash, the empty key included. For the empty key the code
  reads \<open>key[0]\<close> and panics; the trie is left as it was.
\<close>

theorem Add_empty_key_panics:
  "Add n [] val = (n, Inl IndexOutOfRange)"
  by (simp add: Add_def)

subsection \<open>The shape of compiled segments\<close>

lemma splitPad_nonempty: "splitPad s \<noteq> []"
proof -
  have "splitPad_loop s n i start a \<noteq> []" for n i start a
    by (induction s n i start a rule: splitPad_loop.induct) (subst splitPad_loop.simps, simp)
  then show ?thesis by (simp add: splitPad_def)
qed

lemma splitParts_lengths:
  "splitParts inw parts = Inr (pd, ws) \<Longrightarrow>
     [] \<notin> set pd \<and>
     (if inw then length ws = length pd \<or> length ws = length pd + 1
      else length pd = length ws \<or> length pd = length ws + 1)"
proof (induction parts arbitrary: inw pd ws)
  case Nil
  then show ?case by auto
next
  case (Cons v rest)
  show ?case
  proof (cases inw)
    case False
    with Cons.prems obtain pd' where r: "splitParts True rest = Inr (pd', ws)" and pd: "pd = splitPad v # pd'"
      by (auto split: sum.splits)
    from Cons.IH [OF r] show ?thesis using False pd splitPad_nonempty [of v] by auto
  next
    case True
    with Cons.prems obtain w ws' where r: "splitParts False rest = Inr (pd, ws')" and ws: "ws = w # ws'"
      by (auto split: sum.splits)
    from Cons.IH [OF r] show ?thesis using True ws by auto
  qed
qed

lemma splitParts_shape:
  "splitParts False parts = Inr (pd, ws) \<Longrightarrow> shape_ok pd ws (length pd = length ws)"
  using splitParts_lengths [of False parts pd ws] by (auto simp: shape_ok_def)

subsection \<open>The cases of \<open>add\<close>\<close>

lemma add_Nil_cases [consumes 1, case_names leaf_dup leaf_new]:
  assumes "add n ord [] wcs se val = (n', r)"
  obtains
    (leaf_dup) old where "leaf n = Some old" "n' = n" "r = Inl DuplicatePath"
  | (leaf_new) l where "leaf n = None"
      "l = \<lparr>Value = val, Wildcards = wcs, order = ord, parent_l = Some (parent n), slashend = se\<rparr>"
      "n' = Node (edges n) (Some l) (star n) (leafs n) (parent n)" "r = Inr l"
  using assms by (auto simp: Let_def split: option.splits)

lemma add_Cons_star:
  "is_star el0 \<Longrightarrow>
   add n ord (el0 # els) wcs se val =
     (case star n of
        Some old \<Rightarrow> (n, Inl DuplicatePath)
      | None \<Rightarrow>
          (Node (edges n) (leaf n)
             (Some \<lparr>Value = val, Wildcards = wcs @ [\<lparr>Name = tl el0, Min_w = 0, Max_w = 0\<rparr>], order = ord,
                    parent_l = Some (parent n), slashend = se\<rparr>) (leafs n) (parent n),
           Inr \<lparr>Value = val, Wildcards = wcs @ [\<lparr>Name = tl el0, Min_w = 0, Max_w = 0\<rparr>], order = ord,
                 parent_l = Some (parent n), slashend = se\<rparr>))"
  by (cases "star n") (simp_all add: Let_def)

lemma add_Cons_panic:
  "\<not> is_star el0 \<Longrightarrow> splitParts False (splitInput (representation el0)) = Inl e \<Longrightarrow>
   add n ord (el0 # els) wcs se val = (n, Inl e)"
  by (simp add: Let_def)

lemma add_Cons_existing:
  "\<not> is_star el0 \<Longrightarrow> splitParts False (splitInput (representation el0)) = Inr (pd, ws) \<Longrightarrow>
   map_of (edges n) (representation el0) = Some item \<Longrightarrow>
   add (node item) ord els (wcs @ ws) se val = (child, r) \<Longrightarrow>
   add n ord (el0 # els) wcs se val =
     (Node (AList.update (representation el0)
              (Edge child (padding item) (wildcards item) (wildend item) (minorder item)) (edges n))
        (leaf n) (star n) (leafs n) (parent n), r)"
  by (simp add: Let_def)

lemma add_Cons_fresh:
  "\<not> is_star el0 \<Longrightarrow> splitParts False (splitInput (representation el0)) = Inr (pd, ws) \<Longrightarrow>
   map_of (edges n) (representation el0) = None \<Longrightarrow>
   add (Node [] None None 0 (snapshot pd ws (length pd = length ws) ord # parent n))
       ord els (wcs @ ws) se val = (child, r) \<Longrightarrow>
   add n ord (el0 # els) wcs se val =
     (Node (AList.update (representation el0) (Edge child pd ws (length pd = length ws) ord) (edges n))
        (leaf n) (star n) (leafs n) (parent n), r)"
  by (simp add: Let_def)

lemma add_Cons_cases [consumes 1, case_names star_dup star_new panic existing fresh]:
  assumes "add n ord (el0 # els) wcs se val = (n', r)"
  obtains
    (star_dup) old where "is_star el0" "star n = Some old" "n' = n" "r = Inl DuplicatePath"
  | (star_new) l where "is_star el0" "star n = None"
      "l = \<lparr>Value = val, Wildcards = wcs @ [\<lparr>Name = tl el0, Min_w = 0, Max_w = 0\<rparr>], order = ord,
             parent_l = Some (parent n), slashend = se\<rparr>"
      "n' = Node (edges n) (leaf n) (Some l) (leafs n) (parent n)" "r = Inr l"
  | (panic) e where "\<not> is_star el0"
      "splitParts False (splitInput (representation el0)) = Inl e" "n' = n" "r = Inl e"
  | (existing) pd ws item child where "\<not> is_star el0"
      "splitParts False (splitInput (representation el0)) = Inr (pd, ws)"
      "map_of (edges n) (representation el0) = Some item"
      "add (node item) ord els (wcs @ ws) se val = (child, r)"
      "n' = Node (AList.update (representation el0)
                   (Edge child (padding item) (wildcards item) (wildend item) (minorder item)) (edges n))
               (leaf n) (star n) (leafs n) (parent n)"
  | (fresh) pd ws child where "\<not> is_star el0"
      "splitParts False (splitInput (representation el0)) = Inr (pd, ws)"
      "map_of (edges n) (representation el0) = None"
      "add (Node [] None None 0 (snapshot pd ws (length pd = length ws) ord # parent n))
           ord els (wcs @ ws) se val = (child, r)"
      "n' = Node (AList.update (representation el0) (Edge child pd ws (length pd = length ws) ord) (edges n))
               (leaf n) (star n) (leafs n) (parent n)"
proof (cases "is_star el0")
  case st: True
  show ?thesis
  proof (cases "star n")
    case None
    from assms have "n' = Node (edges n) (leaf n)
             (Some \<lparr>Value = val, Wildcards = wcs @ [\<lparr>Name = tl el0, Min_w = 0, Max_w = 0\<rparr>], order = ord,
                    parent_l = Some (parent n), slashend = se\<rparr>) (leafs n) (parent n)"
        and "r = Inr \<lparr>Value = val, Wildcards = wcs @ [\<lparr>Name = tl el0, Min_w = 0, Max_w = 0\<rparr>], order = ord,
                 parent_l = Some (parent n), slashend = se\<rparr>"
      unfolding add_Cons_star [OF st] None by simp_all
    with st None show ?thesis by (intro star_new [OF _ _ refl]) simp_all
  next
    case (Some old)
    from assms have "n' = n" "r = Inl DuplicatePath"
      unfolding add_Cons_star [OF st] Some by simp_all
    with st Some show ?thesis by (intro star_dup) simp_all
  qed
next
  case nostar: False
  show ?thesis
  proof (cases "splitParts False (splitInput (representation el0))")
    case (Inl e)
    from assms have "n' = n" "r = Inl e"
      unfolding add_Cons_panic [OF nostar Inl] by simp_all
    with nostar Inl show ?thesis by (intro panic) simp_all
  next
    case (Inr pw)
    obtain pd ws where pw: "splitParts False (splitInput (representation el0)) = Inr (pd, ws)"
      using Inr by (cases pw) simp
    show ?thesis
    proof (cases "map_of (edges n) (representation el0)")
      case None
      obtain child r' where rec: "add (Node [] None None 0 (snapshot pd ws (length pd = length ws) ord # parent n))
           ord els (wcs @ ws) se val = (child, r')"
        by (cases "add (Node [] None None 0 (snapshot pd ws (length pd = length ws) ord # parent n))
           ord els (wcs @ ws) se val")
      from assms have "n' = Node (AList.update (representation el0) (Edge child pd ws (length pd = length ws) ord) (edges n))
               (leaf n) (star n) (leafs n) (parent n)" and r: "r = r'"
        unfolding add_Cons_fresh [OF nostar pw None rec] by simp_all
      with nostar pw None rec show ?thesis by (intro fresh [of pd ws child]) simp_all
    next
      case (Some item)
      obtain child r' where rec: "add (node item) ord els (wcs @ ws) se val = (child, r')"
        by (cases "add (node item) ord els (wcs @ ws) se val")
      from assms have "n' = Node (AList.update (representation el0)
                   (Edge child (padding item) (wildcards item) (wildend item) (minorder item)) (edges n))
               (leaf n) (star n) (leafs n) (parent n)" and r: "r = r'"
        unfolding add_Cons_existing [OF nostar pw Some rec] by simp_all
      with nostar pw Some rec show ?thesis by (intro existing [of pd ws item child]) simp_all
    qed
  qed
qed

declare add.simps(2) [simp del]

subsection \<open>Selectors and association lists\<close>

lemma leaves_of_sel:
  "leaves_of n = (case leaf n of None \<Rightarrow> [] | Some l \<Rightarrow> [l]) @ (case star n of None \<Rightarrow> [] | Some l \<Rightarrow> [l])
     @ leaves_of_edges (edges n)"
  by (cases n) simp

lemma leaves_of_edges_Cons:
  "leaves_of_edges ((k, e) # es) = leaves_of (node e) @ leaves_of_edges es"
  by (cases e) simp

lemma edges_of_sel: "edges_of n = edges_of_list (edges n)"
  by (cases n) simp

lemma edges_of_list_Cons:
  "edges_of_list ((k, e) # es) = e # edges_of (node e) @ edges_of_list es"
  by (cases e) simp

lemma wf_sel:
  "wf_node n = ((case leaf n of None \<Rightarrow> True | Some l \<Rightarrow> parent_l l = Some (parent n)) \<and>
           (case star n of None \<Rightarrow> True | Some l \<Rightarrow> parent_l l = Some (parent n)) \<and>
           distinct (map fst (edges n)) \<and> wf_edges (parent n) (edges n))"
  by (cases n) (simp split: option.splits)

lemma wf_edges_Cons: "wf_edges p ((k, e) # es) = (edge_good p e \<and> wf_edges p es)"
  by (cases e) (simp add: edge_good_def)

lemma wf_edges_iff: "wf_edges p es = (\<forall>(k, e) \<in> set es. edge_good p e)"
  by (induction es) (auto simp: wf_edges_Cons)

lemma leaves_of_edges_update_new:
  "map_of es k = None \<Longrightarrow> leaves_of_edges (AList.update k e es) = leaves_of_edges es @ leaves_of (node e)"
  by (induction es) (auto simp: leaves_of_edges_Cons)

lemma leaves_of_edges_update_same:
  "map_of es k = Some item \<Longrightarrow> leaves_of (node e) = leaves_of (node item) \<Longrightarrow>
     leaves_of_edges (AList.update k e es) = leaves_of_edges es"
  by (induction es) (auto simp: leaves_of_edges_Cons)

lemma leaves_of_edges_update_set:
  assumes "map_of es k = Some item"
    and "set (leaves_of (node e)) = insert l (set (leaves_of (node item)))"
  shows "set (leaves_of_edges (AList.update k e es)) = insert l (set (leaves_of_edges es))"
  using assms(1)
proof (induction es)
  case Nil
  then show ?case by simp
next
  case (Cons a es)
  obtain k' e' where a: "a = (k', e')" by (cases a)
  show ?case
  proof (cases "k' = k")
    case True
    with Cons.prems a have "e' = item" by simp
    with True a assms(2) show ?thesis by (simp add: leaves_of_edges_Cons)
  next
    case False
    with Cons.prems a have "map_of es k = Some item" by simp
    from Cons.IH [OF this] False a show ?thesis by (simp add: leaves_of_edges_Cons)
  qed
qed

lemma leaves_of_edges_update_length:
  assumes "map_of es k = Some item"
    and "length (leaves_of (node e)) = Suc (length (leaves_of (node item)))"
  shows "length (leaves_of_edges (AList.update k e es)) = Suc (length (leaves_of_edges es))"
  using assms(1)
proof (induction es)
  case Nil
  then show ?case by simp
next
  case (Cons a es)
  obtain k' e' where a: "a = (k', e')" by (cases a)
  show ?case
  proof (cases "k' = k")
    case True
    with Cons.prems a have "e' = item" by simp
    with True a assms(2) show ?thesis by (simp add: leaves_of_edges_Cons)
  next
    case False
    with Cons.prems a have "map_of es k = Some item" by simp
    from Cons.IH [OF this] False a show ?thesis by (simp add: leaves_of_edges_Cons)
  qed
qed

lemma edges_of_list_update:
  "list_all P (edges_of_list es) \<Longrightarrow> P e \<Longrightarrow> list_all P (edges_of (node e)) \<Longrightarrow>
     list_all P (edges_of_list (AList.update k e es))"
  by (induction es) (auto simp: edges_of_list_Cons)

lemma edges_of_list_map_of:
  "map_of es k = Some item \<Longrightarrow> list_all P (edges_of_list es) \<Longrightarrow> P item \<and> list_all P (edges_of (node item))"
  by (induction es) (auto simp: edges_of_list_Cons split: if_splits)

lemma wf_edges_update:
  "wf_edges p es \<Longrightarrow> edge_good p e \<Longrightarrow> wf_edges p (AList.update k e es)"
proof (induction es)
  case Nil
  then show ?case by (simp add: wf_edges_Cons)
next
  case (Cons a es)
  obtain k' e' where a: "a = (k', e')" by (cases a)
  with Cons show ?case by (cases "k' = k") (simp_all add: wf_edges_Cons)
qed

lemma wf_edges_map_of:
  "map_of es k = Some item \<Longrightarrow> wf_edges p es \<Longrightarrow> edge_good p item"
  by (induction es) (auto simp: wf_edges_Cons split: if_splits)

subsection \<open>What \<open>add\<close> changes\<close>

lemma add_frame:
  "add n ord els wcs se val = (n', r) \<Longrightarrow> leafs n' = leafs n \<and> parent n' = parent n"
proof (cases els)
  case Nil
  assume "add n ord els wcs se val = (n', r)"
  with Nil have "add n ord [] wcs se val = (n', r)" by simp
  then show ?thesis by (cases rule: add_Nil_cases) simp_all
next
  case (Cons el0 rest)
  assume "add n ord els wcs se val = (n', r)"
  with Cons have "add n ord (el0 # rest) wcs se val = (n', r)" by simp
  then show ?thesis by (cases rule: add_Cons_cases) simp_all
qed

lemma add_leaves_fail:
  "add n ord els wcs se val = (n', Inl e) \<Longrightarrow> leaves_of n' = leaves_of n"
proof (induction els arbitrary: n n' wcs)
  case Nil
  then show ?case by (cases rule: add_Nil_cases) simp_all
next
  case (Cons el0 els)
  from Cons.prems show ?case
  proof (cases rule: add_Cons_cases)
    case (existing pd ws item child)
    from Cons.IH [OF existing(4)] have "leaves_of child = leaves_of (node item)" .
    with existing show ?thesis
      by (simp add: leaves_of_sel [of n'] leaves_of_sel [of n] leaves_of_edges_update_same)
  next
    case (fresh pd ws child)
    from Cons.IH [OF fresh(4)] have "leaves_of child = []" by simp
    with fresh show ?thesis
      by (simp add: leaves_of_sel [of n'] leaves_of_sel [of n] leaves_of_edges_update_new)
  qed simp_all
qed

lemma add_leaf_fields:
  "add n ord els wcs se val = (n', Inr l) \<Longrightarrow> order l = ord \<and> Value l = val \<and> slashend l = se"
proof (induction els arbitrary: n n' wcs)
  case Nil
  then show ?case by (cases rule: add_Nil_cases) simp_all
next
  case (Cons el0 els)
  from Cons.prems show ?case
  proof (cases rule: add_Cons_cases)
    case (existing pd ws item child)
    from Cons.IH [OF existing(4)] show ?thesis .
  next
    case (fresh pd ws child)
    from Cons.IH [OF fresh(4)] show ?thesis .
  qed simp_all
qed

lemma add_leaves_ok:
  "add n ord els wcs se val = (n', Inr l) \<Longrightarrow>
     set (leaves_of n') = insert l (set (leaves_of n)) \<and> length (leaves_of n') = Suc (length (leaves_of n))"
proof (induction els arbitrary: n n' wcs)
  case Nil
  then show ?case
    by (cases rule: add_Nil_cases) (auto simp: leaves_of_sel [of n'] leaves_of_sel [of n] split: option.splits)
next
  case (Cons el0 els)
  from Cons.prems show ?case
  proof (cases rule: add_Cons_cases)
    case (star_new l')
    then show ?thesis
      by (auto simp: leaves_of_sel [of n'] leaves_of_sel [of n] split: option.splits)
  next
    case (existing pd ws item child)
    from Cons.IH [OF existing(4)]
    have s: "set (leaves_of child) = insert l (set (leaves_of (node item)))"
      and c: "length (leaves_of child) = Suc (length (leaves_of (node item)))" by simp_all
    have s': "set (leaves_of_edges (AList.update (representation el0)
                (Edge child (padding item) (wildcards item) (wildend item) (minorder item)) (edges n)))
              = insert l (set (leaves_of_edges (edges n)))"
      by (rule leaves_of_edges_update_set [OF existing(3)]) (simp add: s)
    have c': "length (leaves_of_edges (AList.update (representation el0)
                (Edge child (padding item) (wildcards item) (wildend item) (minorder item)) (edges n)))
              = Suc (length (leaves_of_edges (edges n)))"
      by (rule leaves_of_edges_update_length [OF existing(3)]) (simp add: c)
    from existing(5) s' c' show ?thesis
      by (simp add: leaves_of_sel [of n'] leaves_of_sel [of n])
  next
    case (fresh pd ws child)
    from Cons.IH [OF fresh(4)]
    have s: "set (leaves_of child) = {l}" and c: "length (leaves_of child) = Suc 0" by simp_all
    from fresh(3,5) s c show ?thesis
      by (simp add: leaves_of_sel [of n'] leaves_of_sel [of n] leaves_of_edges_update_new)
  qed simp_all
qed

lemma add_edges_bound:
  "add n ord els wcs se val = (n', r) \<Longrightarrow> list_all (\<lambda>e. minorder e \<le> ord) (edges_of n) \<Longrightarrow>
     list_all (\<lambda>e. minorder e \<le> ord) (edges_of n')"
proof (induction els arbitrary: n n' wcs)
  case Nil
  from Nil.prems(1) show ?case using Nil.prems(2)
    by (cases rule: add_Nil_cases) (simp_all add: edges_of_sel)
next
  case (Cons el0 els)
  from Cons.prems(1) show ?case
  proof (cases rule: add_Cons_cases)
    case (existing pd ws item child)
    from Cons.prems(2) have all: "list_all (\<lambda>e. minorder e \<le> ord) (edges_of_list (edges n))"
      by (simp add: edges_of_sel)
    from edges_of_list_map_of [OF existing(3) all]
    have it: "minorder item \<le> ord" and sub: "list_all (\<lambda>e. minorder e \<le> ord) (edges_of (node item))"
      by simp_all
    from Cons.IH [OF existing(4) sub] have "list_all (\<lambda>e. minorder e \<le> ord) (edges_of child)" .
    with all it existing(5) show ?thesis
      by (simp add: edges_of_sel [of n'] edges_of_list_update)
  next
    case (fresh pd ws child)
    from Cons.prems(2) have all: "list_all (\<lambda>e. minorder e \<le> ord) (edges_of_list (edges n))"
      by (simp add: edges_of_sel)
    have "list_all (\<lambda>e. minorder e \<le> ord) (edges_of child)"
      by (rule Cons.IH [OF fresh(4)]) simp
    with all fresh(5) show ?thesis
      by (simp add: edges_of_sel [of n'] edges_of_list_update)
  qed (use Cons.prems(2) in \<open>simp_all add: edges_of_sel\<close>)
qed

lemma add_leaves_bound:
  assumes "add n ord els wcs se val = (n', r)" and "list_all (\<lambda>l. P (order l)) (leaves_of n)" and "P ord"
  shows "list_all (\<lambda>l. P (order l)) (leaves_of n')"
proof (cases r)
  case (Inl e)
  with assms(1) have "leaves_of n' = leaves_of n" by (simp add: add_leaves_fail)
  with assms(2) show ?thesis by simp
next
  case (Inr l)
  with assms(1) have "set (leaves_of n') = insert l (set (leaves_of n))" and "order l = ord"
    by (simp_all add: add_leaves_ok add_leaf_fields)
  with assms(2,3) show ?thesis by (simp add: list_all_iff)
qed

lemma add_wf:
  "add n ord els wcs se val = (n', r) \<Longrightarrow> wf_node n \<Longrightarrow>
     list_all (\<lambda>e. minorder e \<le> ord) (edges_of n) \<Longrightarrow> wf_node n'"
proof (induction els arbitrary: n n' wcs)
  case Nil
  from Nil.prems(1) show ?case using Nil.prems(2)
    by (cases rule: add_Nil_cases) (simp_all add: wf_sel [of n'] wf_sel [of n])
next
  case (Cons el0 els)
  from Cons.prems(2) have wfn: "distinct (map fst (edges n))" "wf_edges (parent n) (edges n)"
    by (simp_all add: wf_sel [of n])
  from Cons.prems(3) have all: "list_all (\<lambda>e. minorder e \<le> ord) (edges_of_list (edges n))"
    by (simp add: edges_of_sel)
  from Cons.prems(1) show ?case
  proof (cases rule: add_Cons_cases)
    case (star_new l)
    with Cons.prems(2) show ?thesis by (simp add: wf_sel [of n'] wf_sel [of n])
  next
    case (existing pd ws item child)
    from wf_edges_map_of [OF existing(3) wfn(2)] have good: "edge_good (parent n) item" .
    from edges_of_list_map_of [OF existing(3) all]
    have it: "minorder item \<le> ord" and sub: "list_all (\<lambda>e. minorder e \<le> ord) (edges_of (node item))"
      by simp_all
    from good have wfi: "wf_node (node item)" by (simp add: edge_good_def)
    from Cons.IH [OF existing(4) wfi sub] have wfc: "wf_node child" .
    from add_frame [OF existing(4)] have pc: "parent child = parent (node item)" by simp
    from good have "list_all (\<lambda>l. minorder item \<le> order l) (leaves_of (node item))"
      by (simp add: edge_good_def)
    from add_leaves_bound [OF existing(4), of "\<lambda>x. minorder item \<le> x", OF this it]
    have lc: "list_all (\<lambda>l. minorder item \<le> order l) (leaves_of child)" .
    from good wfc pc lc
    have "edge_good (parent n) (Edge child (padding item) (wildcards item) (wildend item) (minorder item))"
      by (simp add: edge_good_def)
    from wf_edges_update [OF wfn(2) this] Cons.prems(2) existing(5) wfn(1) show ?thesis
      by (simp add: wf_sel [of n'] wf_sel [of n] distinct_update)
  next
    case (fresh pd ws child)
    let ?f = "Node [] None None 0 (snapshot pd ws (length pd = length ws) ord # parent n) :: 'a Node"
    have wfc: "wf_node child"
      by (rule Cons.IH [OF fresh(4)]) simp_all
    from add_frame [OF fresh(4)] have pc: "parent child = snapshot pd ws (length pd = length ws) ord # parent n"
      by simp
    have "list_all (\<lambda>l. ord \<le> order l) (leaves_of ?f)" by simp
    from add_leaves_bound [OF fresh(4), of "\<lambda>x. ord \<le> x", OF this]
    have lc: "list_all (\<lambda>l. ord \<le> order l) (leaves_of child)" by simp
    from splitParts_shape [OF fresh(2)] wfc pc lc
    have "edge_good (parent n) (Edge child pd ws (length pd = length ws) ord)"
      by (simp add: edge_good_def)
    from wf_edges_update [OF wfn(2) this] Cons.prems(2) fresh(5) wfn(1) show ?thesis
      by (simp add: wf_sel [of n'] wf_sel [of n] distinct_update)
  qed (use Cons.prems(2) in simp_all)
qed

subsection \<open>Every reachable trie satisfies the invariant\<close>

lemma distinct_map_card: "distinct (map f xs) = (card (f ` set xs) = length xs)"
proof
  assume "distinct (map f xs)"
  then have "card (set (map f xs)) = length (map f xs)" by (rule distinct_card)
  then show "card (f ` set xs) = length xs" by simp
next
  assume "card (f ` set xs) = length xs"
  then have "card (set (map f xs)) = length (map f xs)" by simp
  then show "distinct (map f xs)" by (rule card_distinct)
qed

lemma root_inv_New: "root_inv New"
  by (simp add: root_inv_def New_def)

lemma root_inv_counter:
  assumes "root_inv t"
  shows "root_inv (Node (edges t) (leaf t) (star t) (leafs t + 1) (parent t))"
proof -
  from assms have "list_all (\<lambda>l. order l \<le> leafs t + 1) (leaves_of t)"
    and "list_all (\<lambda>e. minorder e \<le> leafs t + 1) (edges_of t)"
    by (auto simp: root_inv_def list_all_iff)
  with assms show ?thesis
    by (cases "leaf t"; cases "star t")
       (simp_all add: root_inv_def wf_sel [of t] leaves_of_sel [of t] edges_of_sel [of t])
qed

lemma root_inv_add:
  assumes inv: "root_inv n" and ord: "ord = leafs n"
    and small: "list_all (\<lambda>l. order l < ord) (leaves_of n)"
    and add: "add n ord els wcs se val = (n', r)"
  shows "root_inv n'"
proof -
  from inv have wf: "wf_node n" and par: "parent n = []"
    and lb: "list_all (\<lambda>l. order l \<le> ord) (leaves_of n)"
    and eb: "list_all (\<lambda>e. minorder e \<le> ord) (edges_of n)"
    and dist: "distinct (map order (leaves_of n))"
    by (simp_all add: root_inv_def ord)
  from add_frame [OF add] have fr: "leafs n' = ord" "parent n' = []" by (simp_all add: ord par)
  have wf': "wf_node n'" by (rule add_wf [OF add wf eb])
  have eb': "list_all (\<lambda>e. minorder e \<le> ord) (edges_of n')" by (rule add_edges_bound [OF add eb])
  have lb': "list_all (\<lambda>l. order l \<le> ord) (leaves_of n')"
    by (rule add_leaves_bound [OF add, of "\<lambda>x. x \<le> ord"]) (use lb in simp_all)
  have dist': "distinct (map order (leaves_of n'))"
  proof (cases r)
    case (Inl e)
    with add have "leaves_of n' = leaves_of n" by (simp add: add_leaves_fail)
    with dist show ?thesis by simp
  next
    case (Inr l)
    with add have s: "set (leaves_of n') = insert l (set (leaves_of n))"
      and c: "length (leaves_of n') = Suc (length (leaves_of n))" and o: "order l = ord"
      by (simp_all add: add_leaves_ok add_leaf_fields)
    from small have "ord \<notin> order ` set (leaves_of n)" by (auto simp: list_all_iff)
    then have "card (insert ord (order ` set (leaves_of n))) = Suc (card (order ` set (leaves_of n)))"
      by simp
    also from dist have "card (order ` set (leaves_of n)) = length (leaves_of n)"
      by (simp add: distinct_map_card)
    finally show ?thesis by (simp add: distinct_map_card s c o)
  qed
  from wf' fr lb' eb' dist' show ?thesis by (simp add: root_inv_def)
qed

lemma root_inv_Add: "root_inv t \<Longrightarrow> root_inv (fst (Add t key val))"
proof -
  assume inv: "root_inv t"
  let ?n1 = "Node (edges t) (leaf t) (star t) (leafs t + 1) (parent t)"
  show ?thesis
  proof (cases "key = [] \<or> hd key \<noteq> CHR ''/''")
    case True
    with inv show ?thesis by (auto simp: Add_def)
  next
    case False
    show ?thesis
    proof (cases "splitPath key")
      case (Inl e)
      with False root_inv_counter [OF inv] show ?thesis by (simp add: Add_def Let_def)
    next
      case (Inr p)
      obtain els se where p: "p = (els, se)" by (cases p)
      obtain n' r where a: "add ?n1 (leafs t + 1) els [] se val = (n', r)"
        by (cases "add ?n1 (leafs t + 1) els [] se val")
      from inv have "list_all (\<lambda>l. order l < leafs t + 1) (leaves_of ?n1)"
        by (auto simp: root_inv_def list_all_iff leaves_of_sel [of t])
      from root_inv_add [OF root_inv_counter [OF inv] _ this a] have "root_inv n'" by simp
      with False Inr p a show ?thesis by (simp add: Add_def Let_def)
    qed
  qed
qed

lemma reachable_root_inv: "reachable t \<Longrightarrow> root_inv t"
  by (induction rule: reachable.induct) (simp_all add: root_inv_New root_inv_Add)

lemma wf_edges_of_shape:
  "wf_node (n :: 'v Node) \<Longrightarrow> list_all (\<lambda>e. shape_ok (padding e) (wildcards e) (wildend e)) (edges_of n)"
  "wf_edges p (es :: (string \<times> 'v Edge) list) \<Longrightarrow> list_all (\<lambda>e. shape_ok (padding e) (wildcards e) (wildend e)) (edges_of_list es)"
  by (induction n and es arbitrary: and p rule: edges_of_edges_of_list.induct) auto

subsection \<open>The structural invariant of edges\<close>

text \<open>
  Claim C9: in every trie that calls of \<open>Add\<close> build from a new root, every edge, at
  any depth, has as many padding groups as wildcards when it ends in a wildcard, and
  one more otherwise.
\<close>

theorem edge_shape_invariant:
  "reachable t \<Longrightarrow> e \<in> set (edges_of t) \<Longrightarrow>
     length (padding e) = length (wildcards e) + (if wildend e then 0 else 1)"
proof -
  assume "reachable t" and e: "e \<in> set (edges_of t)"
  then have "wf_node t" by (simp add: reachable_root_inv [unfolded root_inv_def])
  from wf_edges_of_shape(1) [OF this] e show ?thesis
    by (auto simp: list_all_iff shape_ok_def)
qed

theorem edge_shape_invariant_witness:
  "reachable (fst (Add (New :: nat Node) ''/Archive_:first;_all'' 7)) \<and>
   hd (edges_of (fst (Add (New :: nat Node) ''/Archive_:first;_all'' 7)))
     \<in> set (edges_of (fst (Add (New :: nat Node) ''/Archive_:first;_all'' 7))) \<and>
   length (padding (hd (edges_of (fst (Add (New :: nat Node) ''/Archive_:first;_all'' 7))))) =
     length (wildcards (hd (edges_of (fst (Add (New :: nat Node) ''/Archive_:first;_all'' 7))))) +
     (if wildend (hd (edges_of (fst (Add (New :: nat Node) ''/Archive_:first;_all'' 7)))) then 0 else 1)"
proof -
  have r: "reachable (fst (Add (New :: nat Node) ''/Archive_:first;_all'' 7))"
    by (rule reachable_Add [OF reachable_New])
  have m: "hd (edges_of (fst (Add (New :: nat Node) ''/Archive_:first;_all'' 7)))
     \<in> set (edges_of (fst (Add (New :: nat Node) ''/Archive_:first;_all'' 7)))"
    by code_simp
  from r m edge_shape_invariant [OF r m] show ?thesis by (intro conjI)
qed

subsection \<open>Registering a pattern twice\<close>

lemma find_node_fields:
  "edges n = edges m \<Longrightarrow> leaf n = leaf m \<Longrightarrow> star n = star m \<Longrightarrow>
     find_node grow n els exp h = find_node grow m els exp h"
  by (cases els) (simp_all split: option.splits)

lemma add_again:
  "add n ord els wcs se val = (n', Inr l) \<Longrightarrow>
     add (Node (edges n') (leaf n') (star n') c (parent n')) ord' els wcs' se' val' =
       (Node (edges n') (leaf n') (star n') c (parent n'), Inl DuplicatePath)"
proof (induction els arbitrary: n n' wcs wcs' c)
  case Nil
  then show ?case by (cases rule: add_Nil_cases) simp_all
next
  case (Cons el0 els)
  from Cons.prems show ?case
  proof (cases rule: add_Cons_cases)
    case (star_new l')
    then show ?thesis by (simp add: add_Cons_star)
  next
    case (existing pd ws item child)
    let ?e = "Edge child (padding item) (wildcards item) (wildend item) (minorder item)"
    let ?m = "Node (edges n') (leaf n') (star n') c (parent n')"
    from Cons.IH [OF existing(4), where c = "leafs child" and wcs' = "wcs' @ ws"]
    have rec: "add (node ?e) ord' els (wcs' @ ws) se' val' = (child, Inl DuplicatePath)" by simp
    from existing(5) have look: "map_of (edges ?m) (representation el0) = Some ?e"
      by (simp add: update_conv')
    from add_Cons_existing [OF existing(1,2) look rec] existing(5) show ?thesis by simp
  next
    case (fresh pd ws child)
    let ?e = "Edge child pd ws (length pd = length ws) ord"
    let ?m = "Node (edges n') (leaf n') (star n') c (parent n')"
    from Cons.IH [OF fresh(4), where c = "leafs child" and wcs' = "wcs' @ ws"]
    have rec: "add (node ?e) ord' els (wcs' @ ws) se' val' = (child, Inl DuplicatePath)" by simp
    from fresh(5) have look: "map_of (edges ?m) (representation el0) = Some ?e"
      by (simp add: update_conv')
    from add_Cons_existing [OF fresh(1,2) look rec] fresh(5) show ?thesis by simp
  qed simp_all
qed

lemma Add_Inr_cases:
  assumes "Add t key val = (t', Inr l)"
  obtains els se where "key \<noteq> []" "hd key = CHR ''/''" "splitPath key = Inr (els, se)"
    "add (Node (edges t) (leaf t) (star t) (leafs t + 1) (parent t)) (leafs t + 1) els [] se val = (t', Inr l)"
proof -
  from assms have k: "key \<noteq> []" "hd key = CHR ''/''"
    by (auto simp: Add_def split: if_splits)
  show ?thesis
  proof (cases "splitPath key")
    case (Inl e)
    with assms k show ?thesis by (simp add: Add_def Let_def)
  next
    case (Inr p)
    obtain els se where p: "p = (els, se)" by (cases p)
    with assms k Inr show ?thesis by (intro that [of els se]) (simp_all add: Add_def Let_def)
  qed
qed

text \<open>
  Claim C4: when \<open>Add(p, v1)\<close> has succeeded, \<open>Add(p, v2)\<close> fails with the
  duplicate-path error. The failed call advances the insertion counter and changes
  nothing else, so the first leaf is still stored as it was created and \<open>Find\<close>
  answers every path as before.
\<close>

theorem duplicate_Add_fails:
  assumes "Add t p v1 = (t1, Inr l1)"
  shows "Add t1 p v2 = (Node (edges t1) (leaf t1) (star t1) (leafs t1 + 1) (parent t1), Inl DuplicatePath) \<and>
         leaves_of (fst (Add t1 p v2)) = leaves_of t1 \<and> l1 \<in> set (leaves_of t1) \<and>
         Value l1 = v1 \<and> order l1 = leafs t + 1 \<and>
         (\<forall>grow key. Find grow (fst (Add t1 p v2)) key = Find grow t1 key)"
proof -
  from assms obtain els se where k: "p \<noteq> []" "hd p = CHR ''/''" and sp: "splitPath p = Inr (els, se)"
    and a: "add (Node (edges t) (leaf t) (star t) (leafs t + 1) (parent t)) (leafs t + 1) els [] se v1 = (t1, Inr l1)"
    by (rule Add_Inr_cases)
  have second: "Add t1 p v2 = (Node (edges t1) (leaf t1) (star t1) (leafs t1 + 1) (parent t1), Inl DuplicatePath)"
    using k sp add_again [OF a, of "leafs t1 + 1" "leafs t1 + 1" "[]" se v2]
    by (simp add: Add_def Let_def)
  have lv: "leaves_of (fst (Add t1 p v2)) = leaves_of t1"
    by (simp add: second leaves_of_sel [of t1])
  from add_leaves_ok [OF a] have mem: "l1 \<in> set (leaves_of t1)" by simp
  from add_leaf_fields [OF a] have fields: "Value l1 = v1" "order l1 = leafs t + 1" by simp_all
  have fnd: "Find grow (fst (Add t1 p v2)) key = Find grow t1 key" for grow key
    by (simp add: second Find_def find_node_fields [of "Node (edges t1) (leaf t1) (star t1) (leafs t1 + 1) (parent t1)" t1]
             split: sum.splits)
  from second lv mem fields fnd show ?thesis by blast
qed

theorem duplicate_Add_fails_witness:
  "(\<exists>t1 l1. Add (New :: nat Node) ''/a/:b'' 1 = (t1, Inr l1) \<and>
      Add t1 ''/a/:b'' 2 = (Node (edges t1) (leaf t1) (star t1) 2 (parent t1), Inl DuplicatePath) \<and>
      l1 \<in> set (leaves_of t1) \<and> Value l1 = 1 \<and> order l1 = 1)"
proof -
  obtain t1 r where a: "Add (New :: nat Node) ''/a/:b'' 1 = (t1, r)"
    by (cases "Add (New :: nat Node) ''/a/:b'' 1")
  have "isl (snd (Add (New :: nat Node) ''/a/:b'' 1)) = False" by code_simp
  with a obtain l1 where r: "r = Inr l1" by (cases r) simp_all
  have c: "leafs (fst (Add (New :: nat Node) ''/a/:b'' 1)) = 1" by code_simp
  with a have c1: "leafs t1 = 1" by simp
  have n: "leafs (New :: nat Node) = 0" by (simp add: New_def)
  from duplicate_Add_fails [OF a [unfolded r], of 2] a r c1 n show ?thesis by simp
qed

subsection \<open>The parent chains of stored leaves\<close>

lemma wf_leaves_chain:
  "wf_node (n :: 'v Node) \<Longrightarrow> chain_ok (parent n) \<Longrightarrow>
     list_all (\<lambda>l. \<exists>up. parent_l l = Some up \<and> chain_ok up) (leaves_of n)"
  "wf_edges p (es :: (string \<times> 'v Edge) list) \<Longrightarrow> chain_ok p \<Longrightarrow>
     list_all (\<lambda>l. \<exists>up. parent_l l = Some up \<and> chain_ok up) (leaves_of_edges es)"
proof (induction n and es arbitrary: and p rule: leaves_of_leaves_of_edges.induct)
  case (1 es lf st c p)
  then show ?case by (auto split: option.splits)
next
  case 2
  then show ?case by simp
next
  case (3 k n pd ws we mo es)
  from "3.prems" have wfn: "wf_node n" and wfe: "wf_edges p es" and "chain_ok (parent n)"
    by (simp_all add: chain_ok_def snapshot_def)
  with "3.IH"(1) have a: "list_all (\<lambda>l. \<exists>up. parent_l l = Some up \<and> chain_ok up) (leaves_of n)"
    by simp
  from "3.IH"(2) [OF wfe "3.prems"(2)] a show ?case by simp
qed

lemma reachable_leaf_chain:
  assumes "reachable t" and "l \<in> set (leaves_of t)"
  obtains up where "parent_l l = Some up" "chain_ok up"
proof -
  from assms(1) have "wf_node t" "parent t = []"
    by (simp_all add: reachable_root_inv [unfolded root_inv_def])
  with wf_leaves_chain(1) [of t] assms(2) that show ?thesis
    by (auto simp: list_all_iff chain_ok_def)
qed

subsection \<open>\<open>reverse\<close> computes the substitution\<close>

lemma substitute_length: "substitute ws m = (vals, m', miss) \<Longrightarrow> length vals = length ws"
  by (induction ws arbitrary: m vals m' miss) (auto split: if_splits prod.splits)

lemma substitute_append:
  "substitute ws1 m = (v1, m1, x1) \<Longrightarrow> substitute ws2 m1 = (v2, m2, x2) \<Longrightarrow>
     substitute (ws1 @ ws2) m = (v1 @ v2, m2, x1 @ x2)"
  by (induction ws1 arbitrary: m v1 x1) (auto split: if_splits prod.splits)

lemma reverse_loop_Cons:
  "reverse_loop pad key (w # ws) r (outp, missed) h =
     (if key < length pad \<and> pad ! key \<noteq> [] then
        (if usable w (h r)
         then reverse_loop pad (Suc key) ws r (outp @ hd (pad ! key) @ the (h r (Name w)), missed)
                (h(r := (h r)(Name w := None)))
         else reverse_loop pad (Suc key) ws r (outp @ hd (pad ! key), missed @ [descriptor w]) h)
      else (Inl IndexOutOfRange, h))"
  by (auto simp: usable_def Let_def split: option.splits)

declare reverse_loop.simps(2) [simp del]

lemma reverse_loop_other:
  "reverse_loop pad key ws r st h = (res, h') \<Longrightarrow> r' \<noteq> r \<Longrightarrow> h' r' = h r'"
proof (induction ws arbitrary: key st h)
  case Nil
  then show ?case by simp
next
  case (Cons w ws)
  obtain outp missed where st: "st = (outp, missed)" by (cases st)
  show ?case
  proof (cases "key < length pad \<and> pad ! key \<noteq> []")
    case False
    with Cons.prems(1) show ?thesis by (simp add: st reverse_loop_Cons)
  next
    case ok: True
    show ?thesis
    proof (cases "usable w (h r)")
      case True
      with ok Cons.prems(1) have "reverse_loop pad (Suc key) ws r (outp @ hd (pad ! key) @ the (h r (Name w)), missed)
                (h(r := (h r)(Name w := None))) = (res, h')"
        by (simp add: st reverse_loop_Cons)
      from Cons.IH [OF this Cons.prems(2)] Cons.prems(2) show ?thesis by simp
    next
      case False
      with ok Cons.prems(1) have "reverse_loop pad (Suc key) ws r (outp @ hd (pad ! key), missed @ [descriptor w]) h = (res, h')"
        by (simp add: st reverse_loop_Cons)
      from Cons.IH [OF this Cons.prems(2)] show ?thesis .
    qed
  qed
qed

lemma reverse_loop_spec:
  "key + length ws \<le> length pad \<Longrightarrow> [] \<notin> set pad \<Longrightarrow> substitute ws (h r) = (vals, m', miss) \<Longrightarrow>
     reverse_loop pad key ws r (outp, missed) h =
       (Inr (outp @ weave (drop key pad) vals, missed @ miss), h(r := m'))"
proof (induction ws arbitrary: key h vals miss outp missed)
  case Nil
  then show ?case by (auto simp: fun_eq_iff)
next
  case (Cons w ws)
  from Cons.prems(1) have k: "key < length pad" and k': "Suc key + length ws \<le> length pad" by simp_all
  from k Cons.prems(2) have ne: "pad ! key \<noteq> []" by (metis nth_mem)
  from k have dr: "drop key pad = pad ! key # drop (Suc key) pad" by (simp add: Cons_nth_drop_Suc)
  show ?case
  proof (cases "usable w (h r)")
    case True
    from Cons.prems(3) True obtain vals' where
      sub: "substitute ws ((h r)(Name w := None)) = (vals', m', miss)"
      and vals: "vals = the (h r (Name w)) # vals'"
      by (auto split: prod.splits)
    let ?h = "h(r := (h r)(Name w := None))"
    from sub have "substitute ws (?h r) = (vals', m', miss)" by simp
    from Cons.IH [where h = ?h, OF k' Cons.prems(2) this, of "outp @ hd (pad ! key) @ the (h r (Name w))" missed]
    have rec: "reverse_loop pad (Suc key) ws r (outp @ hd (pad ! key) @ the (h r (Name w)), missed) ?h =
       (Inr (outp @ hd (pad ! key) @ the (h r (Name w)) @ weave (drop (Suc key) pad) vals', missed @ miss), h(r := m'))"
      by (simp only: fun_upd_upd append_assoc)
    show ?thesis using True k ne by (simp add: reverse_loop_Cons rec vals dr fun_eq_iff)
  next
    case False
    from Cons.prems(3) False obtain vals' miss' where
      sub: "substitute ws (h r) = (vals', m', miss')" and vals: "vals = [] # vals'"
      and miss: "miss = descriptor w # miss'"
      by (auto split: prod.splits)
    from Cons.IH [where h = h, OF k' Cons.prems(2) sub, of "outp @ hd (pad ! key)" "missed @ [descriptor w]"]
    show ?thesis using False k ne vals miss dr by (simp add: reverse_loop_Cons)
  qed
qed

lemma reverse_other:
  "reverse up exp r missed se h = (res, h') \<Longrightarrow> r' \<noteq> r \<Longrightarrow> h' r' = h r'"
proof (induction up arbitrary: exp missed h)
  case Nil
  then show ?case by simp
next
  case (Cons pe up)
  obtain res1 h1 where l: "reverse_loop (padding_p pe) 0 (wildcards_p pe) r ([], missed) h = (res1, h1)"
    by (cases "reverse_loop (padding_p pe) 0 (wildcards_p pe) r ([], missed) h")
  from reverse_loop_other [OF l Cons.prems(2)] have h1: "h1 r' = h r'" .
  from Cons.prems(1) l h1 show ?case
    by (auto split: sum.splits if_splits dest!: Cons.IH [OF _ Cons.prems(2)])
qed

lemma reverse_ref:
  "reverse up exp r missed se h = (Inr (path, r', miss), h') \<Longrightarrow> r' = r"
proof (induction up arbitrary: exp missed h)
  case Nil
  then show ?case by simp
next
  case (Cons pe up)
  then show ?case by (auto split: sum.splits if_splits prod.splits)
qed

lemma reverse_spec:
  "chain_ok up \<Longrightarrow> substitute (concat (map wildcards_p up)) (h r) = (vals, m', miss) \<Longrightarrow>
     reverse up exp r missed se h =
       (Inr (render_chain up vals @ exp @ (if se then ''/'' else []), r, missed @ miss), h(r := m'))"
proof (induction up arbitrary: exp missed h vals miss m')
  case Nil
  then show ?case by auto
next
  case (Cons pe up)
  let ?ws = "wildcards_p pe" and ?pd = "padding_p pe"
  from Cons.prems(1) have shp: "shape_ok ?pd ?ws (wildend_p pe)" and ok: "chain_ok up"
    by (simp_all add: chain_ok_def)
  obtain v1 m1 x1 where s1: "substitute ?ws (h r) = (v1, m1, x1)" by (cases "substitute ?ws (h r)")
  obtain v2 m2 x2 where s2: "substitute (concat (map wildcards_p up)) m1 = (v2, m2, x2)"
    by (cases "substitute (concat (map wildcards_p up)) m1")
  from substitute_append [OF s1 s2] Cons.prems(2)
  have eq: "vals = v1 @ v2" "m' = m2" "miss = x1 @ x2" by simp_all
  from substitute_length [OF s1] have len: "length v1 = length ?ws" .
  from shp have le: "0 + length ?ws \<le> length ?pd" and ne: "[] \<notin> set ?pd"
    by (simp_all add: shape_ok_def)
  from reverse_loop_spec [where h = h and r = r, OF le ne s1, of "[]" missed]
  have loop: "reverse_loop ?pd 0 ?ws r ([], missed) h = (Inr (weave ?pd v1, missed @ x1), h(r := m1))"
    by simp
  from s2 have s2': "substitute (concat (map wildcards_p up)) ((h(r := m1)) r) = (v2, m2, x2)" by simp
  note IH = Cons.IH [where h = "h(r := m1)" and m' = m2, OF ok s2']
  have rec: "reverse up e r (missed @ x1) se (h(r := m1)) =
       (Inr (render_chain up v2 @ e @ (if se then ''/'' else []), r, missed @ miss), h(r := m'))" for e
    using IH [of e "missed @ x1"] by (simp only: fun_upd_upd append_assoc eq)
  show ?case
  proof (cases "wildend_p pe")
    case True
    with loop eq len show ?thesis
      by (simp add: render_edge_def rec fun_eq_iff)
  next
    case False
    with shp have pne: "?pd \<noteq> []" by (auto simp: shape_ok_def)
    from pne have "last ?pd \<in> set ?pd" by (rule last_in_set)
    with ne have "last ?pd \<noteq> []" by metis
    with pne have "?pd \<noteq> []" "last ?pd \<noteq> []" by simp_all
    with False loop eq len show ?thesis
      by (simp add: render_edge_def rec fun_eq_iff)
  qed
qed

lemma Reverse_registered:
  assumes "reachable t" and "l \<in> set (leaves_of t)" and "parent_l l = Some up"
    and "substitute (concat (map wildcards_p up)) (h r) = (vals, m', miss)"
  shows "Reverse (Some l) r h =
           (Inr (render_chain up vals @ (if slashend l then ''/'' else []), r, miss), h(r := m'))"
proof -
  from assms(1,2) obtain up' where "parent_l l = Some up'" "chain_ok up'"
    by (rule reachable_leaf_chain)
  with assms(3) have "chain_ok up" by simp
  from reverse_spec [where h = h and r = r, OF this assms(4), of "[]" "[]" "slashend l"] assms(3)
  show ?thesis by (simp add: Reverse_def)
qed

lemma strconv_Itoa_2: "strconv_Itoa 2 = ''2''"
  by code_simp

lemma strconv_Itoa_4: "strconv_Itoa 4 = ''4''"
  by code_simp

lemma archive_compiled:
  "splitPath ''/Archive_:[2,4]year;'' = Inr ([''Archive_:[2,4]year;''], False)"
  "is_star ''Archive_:[2,4]year;'' = False"
  "representation ''Archive_:[2,4]year;'' = ''Archive_:[2,4]year''"
  "splitParts False (splitInput ''Archive_:[2,4]year'') =
     Inr ([[''Archive_'']], [\<lparr>Name = ''year'', Min_w = 2, Max_w = 4\<rparr>])"
  by code_simp+

lemma Add_archive:
  "Add New ''/Archive_:[2,4]year;'' x =
     (Node [(''Archive_:[2,4]year'',
             Edge (Node [] (Some (archive_leaf x)) None 0
                     [\<lparr>padding_p = [[''Archive_'']],
                       wildcards_p = [\<lparr>Name = ''year'', Min_w = 2, Max_w = 4\<rparr>],
                       wildend_p = True, minorder_p = 1\<rparr>])
               [[''Archive_'']] [\<lparr>Name = ''year'', Min_w = 2, Max_w = 4\<rparr>] True 1)]
        None None 1 [], Inr (archive_leaf x))"
  by (simp add: Add_def New_def archive_compiled add.simps(2) Let_def snapshot_def archive_leaf_def)

lemma Reverse_archive:
  "Reverse (Some (archive_leaf x)) r (h(r := [''year'' \<mapsto> ''1''])) =
     (Inr (''/Archive_'', r, [''[2,4]year'']), h(r := [''year'' \<mapsto> ''1'']))"
  by (simp add: Reverse_def archive_leaf_def reverse_loop_Cons usable_def out_of_bounds_def
        descriptor_def strconv_Itoa_2 strconv_Itoa_4)

subsection \<open>Substitution by \<open>Reverse\<close>\<close>

text \<open>
  Claim C6: for a registered leaf, \<open>Reverse\<close> treats the wildcards of the edges from
  the leaf to the root in order, as \<open>substitute\<close> prescribes: a wildcard whose name
  is absent, or whose value is out of bounds, gets the empty string and its
  descriptor joins the missing list, its entry staying in the map; any other gets
  its value and its entry is removed. The path is made of these values and the
  first alternatives of the padding groups. For the leaf of
  \<open>Add("/Archive_:[2,4]year;", x)\<close> and the map \<open>{"year": "1"}\<close> the result is the
  path \<open>"/Archive_"\<close>, the map unchanged and the missing list \<open>["[2,4]year"]\<close>.
\<close>

theorem Reverse_substitutes_in_order:
  "(\<forall>(t :: 'v Node) l up h r vals m' miss.
      reachable t \<and> l \<in> set (leaves_of t) \<and> parent_l l = Some up \<and>
      substitute (concat (map wildcards_p up)) (h r) = (vals, m', miss) \<longrightarrow>
      Reverse (Some l) r h =
        (Inr (render_chain up vals @ (if slashend l then ''/'' else []), r, miss), h(r := m'))) \<and>
   snd (Add New ''/Archive_:[2,4]year;'' (x :: 'v)) = Inr (archive_leaf x) \<and>
   Reverse (Some (archive_leaf x)) r0 (h0(r0 := [''year'' \<mapsto> ''1''])) =
     (Inr (''/Archive_'', r0, [''[2,4]year'']), h0(r0 := [''year'' \<mapsto> ''1'']))"
proof (intro conjI allI impI)
  fix t :: "'v Node" and l up and h :: store and r vals m' miss
  assume "reachable t \<and> l \<in> set (leaves_of t) \<and> parent_l l = Some up \<and>
      substitute (concat (map wildcards_p up)) (h r) = (vals, m', miss)"
  then show "Reverse (Some l) r h =
        (Inr (render_chain up vals @ (if slashend l then ''/'' else []), r, miss), h(r := m'))"
    by (intro Reverse_registered [of t]) simp_all
next
  show "snd (Add New ''/Archive_:[2,4]year;'' x) = Inr (archive_leaf x)"
    by (simp add: Add_archive)
next
  show "Reverse (Some (archive_leaf x)) r0 (h0(r0 := [''year'' \<mapsto> ''1''])) =
     (Inr (''/Archive_'', r0, [''[2,4]year'']), h0(r0 := [''year'' \<mapsto> ''1'']))"
    by (rule Reverse_archive)
qed

theorem Reverse_substitutes_in_order_witness:
  "reachable (fst (Add (New :: nat Node) ''/Archive_:[2,4]year;'' 0)) \<and>
   archive_leaf 0 \<in> set (leaves_of (fst (Add (New :: nat Node) ''/Archive_:[2,4]year;'' 0))) \<and>
   parent_l (archive_leaf (0 :: nat)) =
     Some [\<lparr>padding_p = [[''Archive_'']], wildcards_p = [\<lparr>Name = ''year'', Min_w = 2, Max_w = 4\<rparr>],
            wildend_p = True, minorder_p = 1\<rparr>] \<and>
   substitute [\<lparr>Name = ''year'', Min_w = 2, Max_w = 4\<rparr>] [''year'' \<mapsto> ''2013''] = ([''2013''], Map.empty, []) \<and>
   Reverse (Some (archive_leaf (0 :: nat))) 0 ((\<lambda>a. Map.empty)(0 := [''year'' \<mapsto> ''2013''])) =
     (Inr (''/Archive_2013'', 0, []), (\<lambda>a. Map.empty)(0 := Map.empty))"
proof -
  let ?t = "fst (Add (New :: nat Node) ''/Archive_:[2,4]year;'' 0)"
  let ?up = "[\<lparr>padding_p = [[''Archive_'']], wildcards_p = [\<lparr>Name = ''year'', Min_w = 2, Max_w = 4\<rparr>],
            wildend_p = True, minorder_p = 1\<rparr>]"
  let ?h = "(\<lambda>a. Map.empty)(0 := [''year'' \<mapsto> ''2013'']) :: store"
  have r: "reachable ?t" by (rule reachable_Add [OF reachable_New])
  have m: "archive_leaf 0 \<in> set (leaves_of ?t)" by (simp add: Add_archive)
  have p: "parent_l (archive_leaf (0 :: nat)) = Some ?up" by (simp add: archive_leaf_def)
  have s: "substitute [\<lparr>Name = ''year'', Min_w = 2, Max_w = 4\<rparr>] [''year'' \<mapsto> ''2013''] = ([''2013''], Map.empty, [])"
    by (simp add: usable_def out_of_bounds_def)
  then have s': "substitute (concat (map wildcards_p ?up)) (?h 0) = ([''2013''], Map.empty, [])" by simp
  from r m p s' have "reachable ?t \<and> archive_leaf 0 \<in> set (leaves_of ?t) \<and> parent_l (archive_leaf (0 :: nat)) = Some ?up \<and>
      substitute (concat (map wildcards_p ?up)) (?h 0) = ([''2013''], Map.empty, [])" by (intro conjI)
  note g = Reverse_substitutes_in_order [where 'v = nat, THEN conjunct1, rule_format, where h = ?h and r = 0, OF this]
  have "Reverse (Some (archive_leaf (0 :: nat))) 0 ?h = (Inr (''/Archive_2013'', 0, []), (\<lambda>a. Map.empty)(0 := Map.empty))"
    unfolding g by (simp add: render_edge_def archive_leaf_def)
  with r m p s show ?thesis by (intro conjI)
qed

subsection \<open>The map of the caller\<close>

lemma usable_upd: "Name w \<noteq> n \<Longrightarrow> usable w (m(n := None)) = usable w m"
  by (simp add: usable_def)

lemma substitute_Cons_map:
  "fst (snd (substitute (w # ws) m)) =
     fst (snd (substitute ws (if usable w m then m(Name w := None) else m)))"
  by (simp split: prod.splits)

lemma substitute_map:
  "fst (snd (substitute ws m)) = m |` (- Name ` {w \<in> set ws. usable w m})"
proof (induction ws arbitrary: m)
  case Nil
  then show ?case by simp
next
  case (Cons w ws)
  show ?case
  proof (cases "usable w m")
    case True
    have "((m(Name w := None)) |` (- Name ` {w' \<in> set ws. usable w' (m(Name w := None))})) x =
          (m |` (- Name ` {w' \<in> set (w # ws). usable w' m})) x" for x
    proof (cases "x = Name w")
      case x: True
      with \<open>usable w m\<close> show ?thesis by (auto simp: restrict_map_def)
    next
      case x: False
      have "(x \<in> Name ` {w' \<in> set ws. usable w' (m(Name w := None))}) = (x \<in> Name ` {w' \<in> set ws. usable w' m})"
        using x by (auto simp: usable_upd)
      with x show ?thesis by (auto simp: restrict_map_def)
    qed
    then have "(m(Name w := None)) |` (- Name ` {w' \<in> set ws. usable w' (m(Name w := None))}) =
          m |` (- Name ` {w' \<in> set (w # ws). usable w' m})" by (rule ext)
    with True Cons.IH [of "m(Name w := None)"] show ?thesis by (simp only: substitute_Cons_map if_True)
  next
    case False
    then have "{w' \<in> set (w # ws). usable w' m} = {w' \<in> set ws. usable w' m}" by auto
    with False Cons.IH [of m] show ?thesis by (simp only: substitute_Cons_map if_False)
  qed
qed

lemma reverse_loop_map:
  "reverse_loop pad key ws r st h = (Inr st', h') \<Longrightarrow> h' = h(r := fst (snd (substitute ws (h r))))"
proof (induction ws arbitrary: key st h)
  case Nil
  then show ?case by (auto simp: fun_eq_iff)
next
  case (Cons w ws)
  obtain outp missed where st: "st = (outp, missed)" by (cases st)
  show ?case
  proof (cases "key < length pad \<and> pad ! key \<noteq> []")
    case False
    with Cons.prems(1) show ?thesis by (simp add: st reverse_loop_Cons)
  next
    case ok: True
    show ?thesis
    proof (cases "usable w (h r)")
      case True
      with ok Cons.prems(1) have "reverse_loop pad (Suc key) ws r (outp @ hd (pad ! key) @ the (h r (Name w)), missed)
                (h(r := (h r)(Name w := None))) = (Inr st', h')"
        by (simp add: st reverse_loop_Cons)
      from Cons.IH [OF this] True show ?thesis by (simp only: substitute_Cons_map fun_upd_upd fun_upd_same if_True)
    next
      case False
      with ok Cons.prems(1) have "reverse_loop pad (Suc key) ws r (outp @ hd (pad ! key), missed @ [descriptor w]) h = (Inr st', h')"
        by (simp add: st reverse_loop_Cons)
      from Cons.IH [OF this] False show ?thesis by (simp only: substitute_Cons_map if_False)
    qed
  qed
qed

lemma substitute_append_map:
  "fst (snd (substitute (ws1 @ ws2) m)) = fst (snd (substitute ws2 (fst (snd (substitute ws1 m)))))"
proof -
  obtain v1 m1 x1 where s1: "substitute ws1 m = (v1, m1, x1)" by (cases "substitute ws1 m")
  obtain v2 m2 x2 where s2: "substitute ws2 m1 = (v2, m2, x2)" by (cases "substitute ws2 m1")
  from substitute_append [OF s1 s2] s1 s2 show ?thesis by simp
qed

lemma reverse_map:
  "reverse up exp r missed se h = (Inr res, h') \<Longrightarrow>
     h' = h(r := fst (snd (substitute (concat (map wildcards_p up)) (h r))))"
proof (induction up arbitrary: exp missed h)
  case Nil
  then show ?case by (auto simp: fun_eq_iff)
next
  case (Cons pe up)
  obtain res1 h1 where l: "reverse_loop (padding_p pe) 0 (wildcards_p pe) r ([], missed) h = (res1, h1)"
    by (cases "reverse_loop (padding_p pe) 0 (wildcards_p pe) r ([], missed) h")
  show ?case
  proof (cases res1)
    case (Inl e)
    with Cons.prems l show ?thesis by simp
  next
    case (Inr st')
    obtain outp missed' where st': "st' = (outp, missed')" by (cases st')
    from reverse_loop_map [OF l [unfolded Inr]]
    have h1: "h1 = h(r := fst (snd (substitute (wildcards_p pe) (h r))))" .
    from Cons.prems l Inr st' obtain e where "reverse up e r missed' se h1 = (Inr res, h')"
      by (auto split: if_splits)
    from Cons.IH [OF this] have "h' = h1(r := fst (snd (substitute (concat (map wildcards_p up)) (h1 r))))" .
    then show ?thesis by (simp add: h1 substitute_append_map)
  qed
qed

text \<open>
  Claim C10: \<open>Reverse\<close> works on the map of the caller. The map it returns is the
  one it received, at the same address; after the call that map has lost exactly
  the names of the wildcards that were substituted, and no other map has changed.
  For a leaf stored in a reachable trie the call does return.
\<close>

theorem Reverse_mutates_callers_map:
  "(Reverse lf r h = (Inr (path, r', miss), h') \<longrightarrow>
      r' = r \<and> h' = h(r := h r |` (- Name ` {w \<in> set (route_wildcards lf). usable w (h r)}))) \<and>
   (reachable t \<and> l \<in> set (leaves_of t) \<longrightarrow>
      (\<exists>path miss. fst (Reverse (Some l) r h) = Inr (path, r, miss)))"
proof -
  have first: "r' = r \<and> h' = h(r := h r |` (- Name ` {w \<in> set (route_wildcards lf). usable w (h r)}))"
    if a: "Reverse lf r h = (Inr (path, r', miss), h')"
  proof (cases "\<exists>l up. lf = Some l \<and> parent_l l = Some up")
    case False
    then have "route_wildcards lf = []" by (auto simp: route_wildcards_def split: option.splits)
    moreover from False a have "r' = r" "h' = h" by (auto simp: Reverse_def split: option.splits)
    ultimately show ?thesis by (simp add: fun_eq_iff)
  next
    case True
    then obtain l up where lf: "lf = Some l" "parent_l l = Some up" by blast
    with a have rv: "reverse up [] r [] (slashend l) h = (Inr (path, r', miss), h')"
      by (simp add: Reverse_def)
    from lf have "route_wildcards lf = concat (map wildcards_p up)" by (simp add: route_wildcards_def)
    with reverse_ref [OF rv] reverse_map [OF rv] show ?thesis by (simp add: substitute_map)
  qed
  have second: "\<exists>path miss. fst (Reverse (Some l) r h) = Inr (path, r, miss)"
    if "reachable t \<and> l \<in> set (leaves_of t)"
  proof -
    from that have t: "reachable t" and l: "l \<in> set (leaves_of t)" by simp_all
    from t l obtain up where up: "parent_l l = Some up" by (rule reachable_leaf_chain)
    obtain vals m' ms where "substitute (concat (map wildcards_p up)) (h r) = (vals, m', ms)"
      by (cases "substitute (concat (map wildcards_p up)) (h r)")
    from Reverse_registered [where h = h and r = r, OF t l up this]
    show ?thesis by simp
  qed
  from first have "Reverse lf r h = (Inr (path, r', miss), h') \<longrightarrow>
      r' = r \<and> h' = h(r := h r |` (- Name ` {w \<in> set (route_wildcards lf). usable w (h r)}))"
    by (rule impI)
  moreover from second have "reachable t \<and> l \<in> set (leaves_of t) \<longrightarrow>
      (\<exists>path miss. fst (Reverse (Some l) r h) = Inr (path, r, miss))"
    by (rule impI)
  ultimately show ?thesis by (rule conjI)
qed

theorem Reverse_mutates_callers_map_witness:
  "Reverse (Some (archive_leaf (0 :: nat))) 5 ((\<lambda>a. Map.empty)(5 := [''year'' \<mapsto> ''2013'', ''month'' \<mapsto> ''May''])) =
     (Inr (''/Archive_2013'', 5, []), (\<lambda>a. Map.empty)(5 := [''month'' \<mapsto> ''May''])) \<and>
   reachable (fst (Add (New :: nat Node) ''/Archive_:[2,4]year;'' 0)) \<and>
   archive_leaf 0 \<in> set (leaves_of (fst (Add (New :: nat Node) ''/Archive_:[2,4]year;'' 0)))"
proof -
  let ?t = "fst (Add (New :: nat Node) ''/Archive_:[2,4]year;'' 0)"
  let ?m = "[''year'' \<mapsto> ''2013'', ''month'' \<mapsto> ''May'']"
  let ?h = "(\<lambda>a. Map.empty)(5 := ?m) :: store"
  have r: "reachable ?t" by (rule reachable_Add [OF reachable_New])
  have m: "archive_leaf 0 \<in> set (leaves_of ?t)" by (simp add: Add_archive)
  note rm = Reverse_mutates_callers_map [where t = ?t and l = "archive_leaf 0" and r = 5 and h = ?h
      and lf = "Some (archive_leaf (0 :: nat))"]
  from rm [THEN conjunct2, rule_format, OF conjI [OF r m]]
  obtain path miss where f: "fst (Reverse (Some (archive_leaf (0 :: nat))) 5 ?h) = Inr (path, 5, miss)" by blast
  obtain h' where rv: "Reverse (Some (archive_leaf (0 :: nat))) 5 ?h = (Inr (path, 5, miss), h')"
    using f by (cases "Reverse (Some (archive_leaf (0 :: nat))) 5 ?h") simp
  have us: "{w \<in> set (route_wildcards (Some (archive_leaf (0 :: nat)))). usable w (?h 5)} = {\<lparr>Name = ''year'', Min_w = 2, Max_w = 4\<rparr>}"
    by (auto simp: route_wildcards_def archive_leaf_def usable_def out_of_bounds_def)
  have "?m |` (- {''year''}) = [''month'' \<mapsto> ''May'']"
    by (auto simp: restrict_map_def fun_eq_iff)
  with rm [THEN conjunct1, rule_format, OF rv] us have h': "h' = (\<lambda>a. Map.empty)(5 := [''month'' \<mapsto> ''May''])"
    by simp
  have "fst (Reverse (Some (archive_leaf (0 :: nat))) 5 ?h) = Inr (''/Archive_2013'', 5, [])"
    by (simp add: Reverse_def archive_leaf_def reverse_loop_Cons usable_def out_of_bounds_def)
  with rv h' r m show ?thesis by simp
qed

subsection \<open>The matcher does not panic on well-formed edges\<close>

lemma match_pads_total:
  "count \<le> length wcs \<Longrightarrow> \<exists>r. match_pads wcs count pads st = Inr r"
proof (induction pads arbitrary: st)
  case Nil
  then show ?case by (cases st) simp
next
  case (Cons pad pads)
  obtain found variables input where st: "st = (found, variables, input)" by (cases st)
  from Cons show ?case unfolding st by (auto simp: Let_def)
qed

lemma match_groups_total:
  "count + length groups \<le> length wcs + 1 \<Longrightarrow> \<exists>r. match_groups wcs count groups st = Inr r"
proof (induction groups arbitrary: count st)
  case Nil
  then show ?case by (cases st) simp
next
  case (Cons pads rest)
  from Cons.prems have "count \<le> length wcs" by simp
  from match_pads_total [OF this] obtain found variables input
    where mp: "match_pads wcs count pads st = Inr (found, variables, input)"
    by (metis prod_cases3)
  from Cons.prems have "(count + 1) + length rest \<le> length wcs + 1" by simp
  from Cons.IH [OF this] mp show ?case by auto
qed

lemma match_groups_Nil_found:
  "match_groups wcs count [] (False, variables, input) = Inr (False, variables, input)"
  by simp

lemma match_edge_total:
  assumes "shape_ok (padding e) (wildcards e) (wildend e)"
  shows "\<exists>r. match_edge e el = Inr r"
proof -
  from assms have "0 + length (padding e) \<le> length (wildcards e) + 1"
    by (simp add: shape_ok_def)
  from match_groups_total [OF this] obtain found variables input
    where mg: "match_groups (wildcards e) 0 (padding e) (False, [], el) = Inr (found, variables, input)"
    by (metis prod_cases3)
  show ?thesis
  proof (cases "wildend e \<and> wildcards e = []")
    case True
    with assms have "padding e = []" by (simp add: shape_ok_def)
    with mg have "\<not> found" by simp
    with mg show ?thesis by (simp add: match_edge_def)
  next
    case False
    with mg show ?thesis by (auto simp: match_edge_def)
  qed
qed

subsection \<open>The search returns the earliest leaf that the scan accepts\<close>

lemma accepted_sel_Nil: "accepted n [] exp = (case leaf n of None \<Rightarrow> [] | Some l \<Rightarrow> [(l, exp)])"
  by (cases n) simp

lemma accepted_sel_Cons:
  "accepted n (el # elements) exp =
     (case star n of None \<Rightarrow> [] | Some s \<Rightarrow> [(s, exp @ [strings_Join (el # elements) ''/''])]) @
     accepted_edges (edges n) el elements exp"
  by (cases n) simp

lemma accepted_edges_Cons:
  "accepted_edges ((k, e) # es) el elements exp =
     (case match_edge e el of
        Inr (Some variables) \<Rightarrow> accepted (node e) elements (exp @ variables)
      | _ \<Rightarrow> []) @
     accepted_edges es el elements exp"
  by (cases e) (simp split: sum.splits option.splits)

lemma accepted_leaves:
  "fst ` set (accepted (n :: 'v Node) els exp) \<subseteq> set (leaves_of n)"
  "fst ` set (accepted_edges (es :: (string \<times> 'v Edge) list) el els exp) \<subseteq> set (leaves_of_edges es)"
proof (induction n and es arbitrary: els exp and el els exp rule: leaves_of_leaves_of_edges.induct)
  case (1 es lf st c p)
  show ?case
  proof (cases els)
    case Nil
    then show ?thesis by (auto split: option.splits)
  next
    case (Cons el els')
    with 1 [where el = el and els = els' and exp = exp] show ?thesis by (auto split: option.splits)
  qed
next
  case 2
  then show ?case by simp
next
  case (3 k n pd ws we mo es)
  from "3.IH"(1) "3.IH"(2) [where el = el and els = els and exp = exp] show ?case
    by (auto split: sum.splits option.splits)
qed

lemma best_of_empty: "best_of {} (None, exps)"
  by (simp add: best_of_def)

lemma best_of_single: "best_of {(l, exps)} (Some l, exps)"
  by (simp add: best_of_def)

lemma best_of_later:
  assumes "best_of C (Some l, exps)" and "\<forall>c \<in> D. order l \<le> order (fst c)"
  shows "best_of (C \<union> D) (Some l, exps)"
  using assms by (auto simp: best_of_def)

lemma best_of_replace:
  assumes "best_of C (lf, exps)" and "best_of D (Some l', exps')"
    and "lf = None \<or> order (the lf) > order l'"
  shows "best_of (C \<union> D) (Some l', exps')"
  using assms by (cases lf) (auto simp: best_of_def)

lemma best_of_keep:
  assumes "best_of C (lf, exps)" and "best_of D (tl', exps')"
    and "\<not> (tl' \<noteq> None \<and> (lf = None \<or> order (the lf) > order (the tl')))"
  shows "best_of (C \<union> D) (lf, exps)"
proof (cases tl')
  case None
  with assms(2) have "D = {}" by (simp add: best_of_def)
  with assms(1) show ?thesis by simp
next
  case (Some t')
  with assms(3) obtain l where lf: "lf = Some l" and le: "order l \<le> order t'" by (cases lf) auto
  from assms(2) Some have "\<forall>c \<in> D. order t' \<le> order (fst c)" by (simp add: best_of_def)
  with le have "\<forall>c \<in> D. order l \<le> order (fst c)" by auto
  from best_of_later [OF assms(1) [unfolded lf] this] lf show ?thesis by simp
qed

lemma search_best:
  "wf_node (n :: 'v Node) \<Longrightarrow>
     \<exists>res. search_node n els exp = Inr res \<and> best_of (set (accepted n els exp)) res"
  "wf_edges p (es :: (string \<times> 'v Edge) list) \<Longrightarrow> best_of C best \<Longrightarrow>
     \<exists>res. search_edges es el els exp best = Inr res \<and>
           best_of (C \<union> set (accepted_edges es el els exp)) res"
proof (induction n and es arbitrary: els exp and p C best el els exp rule: leaves_of_leaves_of_edges.induct)
  case (1 es lf st c p)
  from "1.prems" have wfe: "wf_edges p es" by simp
  show ?case
  proof (cases els)
    case Nil
    then show ?thesis by (cases lf) (simp_all add: best_of_def)
  next
    case (Cons el els')
    show ?thesis
    proof (cases st)
      case None
      from "1.IH" [OF wfe best_of_empty [of "[]"], where el = el and els = els' and exp = exp] Cons None
      show ?thesis by simp
    next
      case (Some s)
      from "1.IH" [OF wfe best_of_single [of s "exp @ [strings_Join (el # els') ''/'']"],
          where el = el and els = els' and exp = exp] Cons Some
      show ?thesis by simp
    qed
  qed
next
  case 2
  then show ?case by simp
next
  case (3 k n pd ws we mo es)
  let ?e = "Edge n pd ws we mo"
  obtain lf expansions where best: "best = (lf, expansions)" by (cases best)
  from "3.prems"(1) have shp: "shape_ok pd ws we" and below: "list_all (\<lambda>l. mo \<le> order l) (leaves_of n)"
    and wfn: "wf_node n" and wfe: "wf_edges p es" by simp_all
  let ?D = "set (case match_edge ?e el of Inr (Some variables) \<Rightarrow> accepted n els (exp @ variables) | _ \<Rightarrow> [])"
  have D_leaves: "\<forall>c \<in> ?D. mo \<le> order (fst c)"
  proof
    fix c assume "c \<in> ?D"
    then obtain variables where "c \<in> set (accepted n els (exp @ variables))"
      by (auto split: sum.splits option.splits)
    with accepted_leaves(1) [of n els "exp @ variables"] have "fst c \<in> set (leaves_of n)" by auto
    with below show "mo \<le> order (fst c)" by (simp add: list_all_iff)
  qed
  have step: "\<exists>best'. best_of (C \<union> ?D) best' \<and>
      search_edges ((k, ?e) # es) el els exp best = search_edges es el els exp best'"
  proof (cases "lf \<noteq> None \<and> order (the lf) < mo")
    case True
    then obtain l where lf: "lf = Some l" and lt: "order l < mo" by auto
    from D_leaves lt have "\<forall>c \<in> ?D. order l \<le> order (fst c)" by fastforce
    from best_of_later [OF "3.prems"(2) [unfolded best lf] this] True best lf show ?thesis
      by auto
  next
    case np: False
    from match_edge_total [of ?e el] shp obtain r where me: "match_edge ?e el = Inr r" by auto
    show ?thesis
    proof (cases r)
      case None
      with me np best "3.prems"(2) show ?thesis by auto
    next
      case (Some variables)
      from "3.IH"(1) [OF wfn, where els = els and exp = "exp @ variables"] obtain testleaf testexpansions
        where fn: "search_node n els (exp @ variables) = Inr (testleaf, testexpansions)"
          and bn: "best_of (set (accepted n els (exp @ variables))) (testleaf, testexpansions)"
        by auto
      from me Some have D: "?D = set (accepted n els (exp @ variables))" by simp
      show ?thesis
      proof (cases "testleaf \<noteq> None \<and> (lf = None \<or> order (the lf) > order (the testleaf))")
        case True
        then obtain l' where tl: "testleaf = Some l'" by auto
        from best_of_replace [OF "3.prems"(2) [unfolded best] bn [unfolded tl]] True tl
        have "best_of (C \<union> ?D) (Some l', testexpansions)" by (simp add: D)
        with me Some np fn True tl best show ?thesis by auto
      next
        case False
        from best_of_keep [OF "3.prems"(2) [unfolded best] bn False]
        have "best_of (C \<union> ?D) (lf, expansions)" by (simp add: D)
        with me Some np fn False best show ?thesis by auto
      qed
    qed
  qed
  then obtain best' where b': "best_of (C \<union> ?D) best'"
    and eq: "search_edges ((k, ?e) # es) el els exp best = search_edges es el els exp best'" by blast
  from "3.IH"(2) [OF wfe b', where el = el and els = els and exp = exp] eq show ?case
    by (simp add: Un_assoc)
qed

subsection \<open>The leaf found does not depend on the arrays\<close>

lemma append_slice_len:
  "append_slice grow s xs h = (s', h') \<Longrightarrow> s_len s' = s_len s + length xs"
  by (auto simp: append_slice_def Let_def split: if_splits)

lemma agrees_Inl: "agrees r (Inl e) = (r = Inl e)"
  by (simp add: agrees_def)

lemma agrees_Inr: "agrees r (Inr (l, ex)) = (\<exists>s h. r = Inr (l, s, h) \<and> s_len s = length ex)"
  by (simp add: agrees_def)

lemma find_node_search:
  "s_len s = length exp \<Longrightarrow>
     agrees (find_node grow (n :: 'v Node) els s h) (search_node n els exp)"
  "s_len s = length exp \<Longrightarrow> s_len bs = length bex \<Longrightarrow>
     agrees (find_edges grow (es :: (string \<times> 'v Edge) list) el els s (lf, bs) h)
            (search_edges es el els exp (lf, bex))"
proof (induction n and es arbitrary: els exp s h and el els exp s h lf bs bex
       rule: leaves_of_leaves_of_edges.induct)
  case (1 es lf0 st c p)
  show ?case
  proof (cases els)
    case Nil
    with "1.prems" show ?thesis by (simp add: agrees_Inr)
  next
    case (Cons el els')
    show ?thesis
    proof (cases st)
      case None
      have z: "s_len nil_slice = length ([] :: string list)" by (simp add: nil_slice_def)
      from "1.IH" [OF "1.prems" z, where el = el and els = els' and h = h and lf = None] Cons None
      show ?thesis by simp
    next
      case (Some sl)
      obtain s1 h1 where ap: "append_slice grow s [strings_Join (el # els') ''/''] h = (s1, h1)"
        by (cases "append_slice grow s [strings_Join (el # els') ''/''] h")
      from append_slice_len [OF ap] "1.prems"
      have l1: "s_len s1 = length (exp @ [strings_Join (el # els') ''/''])" by simp
      from "1.IH" [OF "1.prems" l1, where el = el and els = els' and h = h1 and lf = "Some sl"] Cons Some ap
      show ?thesis by simp
    qed
  qed
next
  case 2
  then show ?case by (simp add: agrees_Inr)
next
  case (3 k n pd ws we mo es)
  let ?e = "Edge n pd ws we mo"
  note rest = "3.IH"(2) [OF "3.prems"(1), where el = el and els = els]
  show ?case
  proof (cases "lf \<noteq> None \<and> order (the lf) < mo")
    case True
    with rest [OF "3.prems"(2), of lf h] show ?thesis by simp
  next
    case np: False
    show ?thesis
    proof (cases "match_edge ?e el")
      case (Inl e)
      with np show ?thesis by (cases lf) (simp_all add: agrees_Inl)
    next
      case (Inr r)
      show ?thesis
      proof (cases r)
        case None
        with np Inr rest [OF "3.prems"(2), of lf h] show ?thesis by (cases lf) simp_all
      next
        case (Some variables)
        obtain s1 h1 where ap: "append_slice grow s variables h = (s1, h1)"
          by (cases "append_slice grow s variables h")
        from append_slice_len [OF ap] "3.prems"(1) have l1: "s_len s1 = length (exp @ variables)" by simp
        note below = "3.IH"(1) [OF l1, where els = els and h = h1]
        show ?thesis
        proof (cases "search_node n els (exp @ variables)")
          case (Inl e)
          with below have "find_node grow n els s1 h1 = Inl e" by (simp add: agrees_Inl)
          with np Inr Some ap Inl show ?thesis by (cases lf) (simp_all add: agrees_Inl)
        next
          case sr: (Inr res)
          obtain testleaf tex where res: "res = (testleaf, tex)" by (cases res)
          from below sr res obtain ts h2 where fn: "find_node grow n els s1 h1 = Inr (testleaf, ts, h2)"
            and lt: "s_len ts = length tex" by (auto simp: agrees_Inr)
          show ?thesis
          proof (cases "testleaf \<noteq> None \<and> (lf = None \<or> order (the lf) > order (the testleaf))")
            case True
            with np Inr Some ap sr res fn rest [OF lt, of testleaf h2] show ?thesis by (cases lf) auto
          next
            case False
            with np Inr Some ap sr res fn rest [OF "3.prems"(2), of lf h2] show ?thesis by (cases lf) auto
          qed
        qed
      qed
    qed
  qed
qed

lemma Find_Search_panic:
  assumes "Search t key = Inl e"
  shows "Find grow t key = Inl e"
proof (cases "key = [] \<or> hd key \<noteq> CHR ''/''")
  case True
  with assms show ?thesis by (auto simp: Search_def)
next
  case False
  have z: "s_len nil_slice = length ([] :: string list)" by (simp add: nil_slice_def)
  show ?thesis
  proof (cases "splitPath key")
    case (Inl e')
    with False assms show ?thesis by (simp add: Search_def Find_def)
  next
    case (Inr q)
    obtain els se where q: "q = (els, se)" by (cases q)
    from False Inr q assms have sn: "search_node t els [] = Inl e" by (simp add: Search_def)
    from find_node_search(1) [OF z, of grow t els "[]"] sn
    have "find_node grow t els nil_slice [] = Inl e" by (simp add: agrees_Inl)
    with False Inr q show ?thesis by (simp add: Find_def)
  qed
qed

lemma Find_Search:
  assumes "Search t key = Inr (lf, ex)"
  shows "\<exists>ex'. Find grow t key = Inr (lf, ex') \<and> (ex = [] \<longrightarrow> ex' = [])"
proof (cases "key = [] \<or> hd key \<noteq> CHR ''/''")
  case True
  with assms show ?thesis by (auto simp: Search_def Find_def)
next
  case False
  have z: "s_len nil_slice = length ([] :: string list)" by (simp add: nil_slice_def)
  show ?thesis
  proof (cases "splitPath key")
    case (Inl e)
    with False assms show ?thesis by (simp add: Search_def)
  next
    case (Inr q)
    obtain els se where q: "q = (els, se)" by (cases q)
    from False Inr q assms have sn: "search_node t els [] = Inr (lf, ex)" by (simp add: Search_def)
    from find_node_search(1) [OF z, of grow t els "[]"] sn obtain s h
      where fn: "find_node grow t els nil_slice [] = Inr (lf, s, h)" and len: "s_len s = length ex"
      by (auto simp: agrees_Inr)
    from len have "ex = [] \<longrightarrow> elems s h = []" by (simp add: elems_def)
    with False Inr q fn show ?thesis by (simp add: Find_def)
  qed
qed

lemma Find_leaf: "map_sum id fst (Find grow t key) = map_sum id fst (Search t key)"
proof (cases "Search t key")
  case (Inl e)
  from Find_Search_panic [OF this, of grow] Inl show ?thesis by simp
next
  case (Inr res)
  obtain lf ex where res: "res = (lf, ex)" by (cases res)
  from Find_Search [OF Inr [unfolded res], of grow] Inr res show ?thesis by auto
qed

subsection \<open>Keys that start with a slash are split without panic\<close>

lemma strings_Split_nonempty: "strings_Split s sep \<noteq> []"
  by (induction s) (auto split: list.splits)

lemma splitPath_slash:
  assumes "key \<noteq> []" and "hd key = CHR ''/''"
  obtains els se where "splitPath key = Inr (els, se)"
proof -
  from assms obtain cs where key: "key = CHR ''/'' # cs" by (cases key) auto
  have "strings_Split cs CHR ''/'' \<noteq> []" by (rule strings_Split_nonempty)
  then have "\<exists>els se. splitPath key = Inr (els, se)"
    by (auto simp: splitPath_def key Let_def)
  with that show ?thesis by blast
qed

lemma Search_best:
  assumes "wf_node t"
  shows "\<exists>res. Search t key = Inr res \<and> best_of (set (accepted_for t key)) res"
proof (cases "key = [] \<or> hd key \<noteq> CHR ''/''")
  case True
  then show ?thesis by (auto simp: Search_def accepted_for_def best_of_def)
next
  case False
  then obtain els se where sp: "splitPath key = Inr (els, se)"
    by (auto elim: splitPath_slash)
  from search_best(1) [OF assms, of els "[]"] False sp show ?thesis
    by (simp add: Search_def accepted_for_def)
qed

lemma ab_compiled:
  "splitPath ''/:a/:b'' = Inr (['':a'', '':b''], False)"
  "splitPath ''/not/found'' = Inr ([''not'', ''found''], False)"
  "is_star '':a'' = False" "is_star '':b'' = False" "is_star ''not'' = False" "is_star ''found'' = False"
  "representation '':a'' = '':a''" "representation '':b'' = '':b''"
  "representation ''not'' = ''not''" "representation ''found'' = ''found''"
  "splitParts False (splitInput '':a'') = Inr ([[[]]], [\<lparr>Name = ''a'', Min_w = 0, Max_w = 0\<rparr>])"
  "splitParts False (splitInput '':b'') = Inr ([[[]]], [\<lparr>Name = ''b'', Min_w = 0, Max_w = 0\<rparr>])"
  "splitParts False (splitInput ''not'') = Inr ([[''not'']], [])"
  "splitParts False (splitInput ''found'') = Inr ([[''found'']], [])"
  by code_simp+

lemma ab_first: "snd (Add New ''/:a/:b'' v1) = Inr (ab_leaf v1)"
  by (simp add: Add_def New_def ab_compiled add.simps(2) Let_def snapshot_def ab_leaf_def)

lemma ab_second:
  "\<exists>l2. snd (Add (fst (Add New ''/:a/:b'' v1)) ''/not/found'' v2) = Inr l2 \<and> order l2 = 2 \<and> Value l2 = v2"
  by (simp add: Add_def New_def ab_compiled add.simps(2) Let_def snapshot_def ab_leaf_def)

lemma ab_find:
  "Find grow (fst (Add (fst (Add New ''/:a/:b'' v1)) ''/not/found'' v2)) ''/not/found'' =
     Inr (Some (ab_leaf v1), [''not'', ''found''])"
  by (simp add: Add_def New_def ab_compiled add.simps(2) Let_def snapshot_def ab_leaf_def
        Find_def match_edge_def out_of_bounds_def append_slice_def nil_slice_def elems_def)

subsection \<open>Edges hold what their keys compile to\<close>

lemma keyed_sel: "keyed n = keyed_edges (edges n)"
  by (cases n) simp

lemma keyed_edges_Cons: "keyed_edges ((k, e) # es) = (edge_keyed k e \<and> keyed_edges es)"
  by (cases e) (simp add: edge_keyed_def)

lemma keyed_edges_update:
  "keyed_edges es \<Longrightarrow> edge_keyed k e \<Longrightarrow> keyed_edges (AList.update k e es)"
proof (induction es)
  case Nil
  then show ?case by (simp add: keyed_edges_Cons)
next
  case (Cons a es)
  obtain k' e' where a: "a = (k', e')" by (cases a)
  with Cons show ?case by (cases "k' = k") (simp_all add: keyed_edges_Cons)
qed

lemma keyed_edges_map_of:
  "map_of es k = Some item \<Longrightarrow> keyed_edges es \<Longrightarrow> edge_keyed k item"
proof (induction es)
  case Nil
  then show ?case by simp
next
  case (Cons a es)
  obtain k' e' where a: "a = (k', e')" by (cases a)
  with Cons show ?case by (cases "k' = k") (simp_all add: keyed_edges_Cons)
qed

lemma add_keyed:
  "add n ord els wcs se val = (n', r) \<Longrightarrow> keyed n \<Longrightarrow> keyed n'"
proof (induction els arbitrary: n n' wcs)
  case Nil
  from Nil.prems(1) show ?case using Nil.prems(2)
    by (cases rule: add_Nil_cases) (simp_all add: keyed_sel)
next
  case (Cons el0 els)
  from Cons.prems(2) have ke: "keyed_edges (edges n)" by (simp add: keyed_sel)
  from Cons.prems(1) show ?case
  proof (cases rule: add_Cons_cases)
    case (existing pd ws item child)
    from keyed_edges_map_of [OF existing(3) ke] have it: "edge_keyed (representation el0) item" .
    then have "keyed (node item)" by (simp add: edge_keyed_def)
    from Cons.IH [OF existing(4) this] it
    have "edge_keyed (representation el0) (Edge child (padding item) (wildcards item) (wildend item) (minorder item))"
      by (simp add: edge_keyed_def)
    from keyed_edges_update [OF ke this] existing(5) show ?thesis by (simp add: keyed_sel)
  next
    case (fresh pd ws child)
    have "keyed child" by (rule Cons.IH [OF fresh(4)]) simp
    with fresh(2) have "edge_keyed (representation el0) (Edge child pd ws (length pd = length ws) ord)"
      by (simp add: edge_keyed_def)
    from keyed_edges_update [OF ke this] fresh(5) show ?thesis by (simp add: keyed_sel)
  qed (use Cons.prems(2) in \<open>simp_all add: keyed_sel\<close>)
qed

lemma Add_keyed: "keyed t \<Longrightarrow> keyed (fst (Add t key val))"
proof -
  assume k: "keyed t"
  let ?n1 = "Node (edges t) (leaf t) (star t) (leafs t + 1) (parent t)"
  from k have k1: "keyed ?n1" by (simp add: keyed_sel)
  show ?thesis
  proof (cases "key = [] \<or> hd key \<noteq> CHR ''/''")
    case True
    with k show ?thesis by (auto simp: Add_def)
  next
    case False
    show ?thesis
    proof (cases "splitPath key")
      case (Inl e)
      with False k1 show ?thesis by (simp add: Add_def Let_def)
    next
      case (Inr p)
      obtain els se where p: "p = (els, se)" by (cases p)
      obtain n' r where a: "add ?n1 (leafs t + 1) els [] se val = (n', r)"
        by (cases "add ?n1 (leafs t + 1) els [] se val")
      from add_keyed [OF a k1] False Inr p a show ?thesis by (simp add: Add_def Let_def)
    qed
  qed
qed

lemma reachable_keyed: "reachable t \<Longrightarrow> keyed t"
  by (induction rule: reachable.induct) (simp_all add: New_def Add_keyed)

lemma later_reachable: "later t t' \<Longrightarrow> reachable t \<Longrightarrow> reachable t'"
  by (induction rule: later.induct) (simp_all add: reachable_Add)

subsection \<open>The key of an edge\<close>

lemma update_other: "k' \<noteq> k \<Longrightarrow> map_of (AList.update k v al) k' = map_of al k'"
  by (simp add: update_conv')

lemma update_same: "map_of (AList.update k v al) k = Some v"
  by (simp add: update_conv')

lemma update_keys_present: "map_of al k = Some x \<Longrightarrow> map fst (AList.update k v al) = map fst al"
  by (simp add: update_keys map_of_eq_None_iff [symmetric] del: map_of_eq_None_iff)

lemma update_keys_absent: "map_of al k = None \<Longrightarrow> map fst (AList.update k v al) = map fst al @ [k]"
  by (simp add: update_keys map_of_eq_None_iff)

text \<open>
  Claim C8 says that two segments go to different edges exactly when their source
  texts differ. The code removes one trailing semicolon before it looks the segment
  up, so \<open>:a\<close> and \<open>:a;\<close> are one edge: registering \<open>/:a;\<close> after \<open>/:a\<close> is a
  duplicate.
\<close>

theorem edge_identity_counterexample:
  "'':a'' \<noteq> '':a;'' \<and>
   map fst (edges (fst (Add (fst (Add (New :: nat Node) ''/:a'' 1)) ''/:a;'' 2))) = ['':a''] \<and>
   snd (Add (fst (Add (New :: nat Node) ''/:a'' 1)) ''/:a;'' 2) = Inl DuplicatePath"
  by code_simp

text \<open>
  Claim C8 as amended: at a node, a segment that is not a rest-of-path segment is
  looked up under its text without one trailing semicolon. Every edge under
  another key is left as it is. When the key is present its edge is reused, with
  its padding groups, wildcards and \<open>wildend\<close> unchanged, and the rest of the
  pattern is added below its child; when the key is absent a new edge is appended,
  compiled from the key, and the rest is added below a new child. So \<open>:a;\<close> and
  \<open>:[1,2]a;\<close> get two edges, and so do \<open>:a\<close> and \<open>:[0]a\<close>, which compile to the same
  padding groups and wildcard, while \<open>:a\<close> and \<open>:a;\<close> share one.
\<close>

theorem edge_identity_by_key:
  "(\<forall>(n :: 'v Node) ord el0 els wcs se val n' r pd ws.
      add n ord (el0 # els) wcs se val = (n', r) \<and> \<not> is_star el0 \<and>
      splitParts False (splitInput (representation el0)) = Inr (pd, ws) \<longrightarrow>
      (\<forall>k. k \<noteq> representation el0 \<longrightarrow> map_of (edges n') k = map_of (edges n) k) \<and>
      (case map_of (edges n) (representation el0) of
         Some item \<Rightarrow>
           map fst (edges n') = map fst (edges n) \<and>
           (\<exists>child mo. map_of (edges n') (representation el0) =
                          Some (Edge child (padding item) (wildcards item) (wildend item) mo) \<and>
                        add (node item) ord els (wcs @ ws) se val = (child, r))
       | None \<Rightarrow>
           map fst (edges n') = map fst (edges n) @ [representation el0] \<and>
           (\<exists>child. map_of (edges n') (representation el0) =
                       Some (Edge child pd ws (length pd = length ws) ord) \<and>
                     add (Node [] None None 0 (snapshot pd ws (length pd = length ws) ord # parent n))
                       ord els (wcs @ ws) se val = (child, r)))) \<and>
   representation '':a;'' = '':a'' \<and> representation '':a'' = '':a'' \<and>
   representation '':[1,2]a;'' = '':[1,2]a'' \<and>
   map fst (edges (fst (Add (fst (Add (New :: nat Node) ''/:a;'' 1)) ''/:[1,2]a;'' 2))) = ['':a'', '':[1,2]a''] \<and>
   splitParts False (splitInput '':[0]a'') = splitParts False (splitInput '':a'') \<and>
   map fst (edges (fst (Add (fst (Add (New :: nat Node) ''/:a'' 1)) ''/:[0]a'' 2))) = ['':a'', '':[0]a'']"
proof -
  have general:
    "(\<forall>k. k \<noteq> representation el0 \<longrightarrow> map_of (edges n') k = map_of (edges n) k) \<and>
      (case map_of (edges n) (representation el0) of
         Some item \<Rightarrow>
           map fst (edges n') = map fst (edges n) \<and>
           (\<exists>child mo. map_of (edges n') (representation el0) =
                          Some (Edge child (padding item) (wildcards item) (wildend item) mo) \<and>
                        add (node item) ord els (wcs @ ws) se val = (child, r))
       | None \<Rightarrow>
           map fst (edges n') = map fst (edges n) @ [representation el0] \<and>
           (\<exists>child. map_of (edges n') (representation el0) =
                       Some (Edge child pd ws (length pd = length ws) ord) \<and>
                     add (Node [] None None 0 (snapshot pd ws (length pd = length ws) ord # parent n))
                       ord els (wcs @ ws) se val = (child, r)))"
    if h: "add n ord (el0 # els) wcs se val = (n', r) \<and> \<not> is_star el0 \<and>
      splitParts False (splitInput (representation el0)) = Inr (pd, ws)"
    for n :: "'v Node" and ord el0 els wcs se val n' r pd ws
  proof -
    from h have a: "add n ord (el0 # els) wcs se val = (n', r)" and ns: "\<not> is_star el0"
      and sp: "splitParts False (splitInput (representation el0)) = Inr (pd, ws)" by simp_all
    from a show ?thesis
    proof (cases rule: add_Cons_cases)
      case (existing pd' ws' item child)
      with sp have eq: "pd' = pd" "ws' = ws" by simp_all
      from existing(5) have "map_of (edges n') (representation el0) =
          Some (Edge child (padding item) (wildcards item) (wildend item) (minorder item))"
        by (simp add: update_same)
      with existing(3,4,5) eq show ?thesis
        by (auto simp: update_other update_keys_present)
    next
      case (fresh pd' ws' child)
      with sp have eq: "pd' = pd" "ws' = ws" by simp_all
      from fresh(5) eq have "map_of (edges n') (representation el0) =
          Some (Edge child pd ws (length pd = length ws) ord)"
        by (simp add: update_same)
      with fresh(3,4,5) eq show ?thesis
        by (auto simp: update_other update_keys_absent)
    qed (use ns sp in simp_all)
  qed
  then have g: "\<forall>(n :: 'v Node) ord el0 els wcs se val n' r pd ws.
      add n ord (el0 # els) wcs se val = (n', r) \<and> \<not> is_star el0 \<and>
      splitParts False (splitInput (representation el0)) = Inr (pd, ws) \<longrightarrow>
      (\<forall>k. k \<noteq> representation el0 \<longrightarrow> map_of (edges n') k = map_of (edges n) k) \<and>
      (case map_of (edges n) (representation el0) of
         Some item \<Rightarrow>
           map fst (edges n') = map fst (edges n) \<and>
           (\<exists>child mo. map_of (edges n') (representation el0) =
                          Some (Edge child (padding item) (wildcards item) (wildend item) mo) \<and>
                        add (node item) ord els (wcs @ ws) se val = (child, r))
       | None \<Rightarrow>
           map fst (edges n') = map fst (edges n) @ [representation el0] \<and>
           (\<exists>child. map_of (edges n') (representation el0) =
                       Some (Edge child pd ws (length pd = length ws) ord) \<and>
                     add (Node [] None None 0 (snapshot pd ws (length pd = length ws) ord # parent n))
                       ord els (wcs @ ws) se val = (child, r)))"
    by (intro allI impI)
  have c1: "representation '':a;'' = '':a''" "representation '':a'' = '':a''"
    "representation '':[1,2]a;'' = '':[1,2]a''"
    by code_simp+
  have c2: "map fst (edges (fst (Add (fst (Add (New :: nat Node) ''/:a;'' 1)) ''/:[1,2]a;'' 2))) = ['':a'', '':[1,2]a'']"
    by code_simp
  have c3: "splitParts False (splitInput '':[0]a'') = splitParts False (splitInput '':a'')"
    by code_simp
  have c4: "map fst (edges (fst (Add (fst (Add (New :: nat Node) ''/:a'' 1)) ''/:[0]a'' 2))) = ['':a'', '':[0]a'']"
    by code_simp
  from g c1 c2 c3 c4 show ?thesis by (intro conjI)
qed

theorem edge_identity_by_key_witness:
  "add (New :: nat Node) 1 ['':a;''] [] False 7 =
     (Node [('':a'', Edge (Node [] (Some \<lparr>Value = 7, Wildcards = [\<lparr>Name = ''a'', Min_w = 0, Max_w = 0\<rparr>],
                                           order = 1,
                                           parent_l = Some [snapshot [[[]]] [\<lparr>Name = ''a'', Min_w = 0, Max_w = 0\<rparr>] True 1],
                                           slashend = False\<rparr>) None 0
                                   [snapshot [[[]]] [\<lparr>Name = ''a'', Min_w = 0, Max_w = 0\<rparr>] True 1])
                      [[[]]] [\<lparr>Name = ''a'', Min_w = 0, Max_w = 0\<rparr>] True 1)] None None 0 [],
      Inr \<lparr>Value = 7, Wildcards = [\<lparr>Name = ''a'', Min_w = 0, Max_w = 0\<rparr>], order = 1,
            parent_l = Some [snapshot [[[]]] [\<lparr>Name = ''a'', Min_w = 0, Max_w = 0\<rparr>] True 1],
            slashend = False\<rparr>) \<and>
   is_star '':a;'' = False \<and>
   splitParts False (splitInput (representation '':a;'')) = Inr ([[[]]], [\<lparr>Name = ''a'', Min_w = 0, Max_w = 0\<rparr>]) \<and>
   map_of (edges (New :: nat Node)) (representation '':a;'') = None \<and>
   map fst (edges (fst (add (New :: nat Node) 1 ['':a;''] [] False 7))) = ['':a'']"
proof -
  have a: "add (New :: nat Node) 1 ['':a;''] [] False 7 =
     (Node [('':a'', Edge (Node [] (Some \<lparr>Value = 7, Wildcards = [\<lparr>Name = ''a'', Min_w = 0, Max_w = 0\<rparr>],
                                           order = 1,
                                           parent_l = Some [snapshot [[[]]] [\<lparr>Name = ''a'', Min_w = 0, Max_w = 0\<rparr>] True 1],
                                           slashend = False\<rparr>) None 0
                                   [snapshot [[[]]] [\<lparr>Name = ''a'', Min_w = 0, Max_w = 0\<rparr>] True 1])
                      [[[]]] [\<lparr>Name = ''a'', Min_w = 0, Max_w = 0\<rparr>] True 1)] None None 0 [],
      Inr \<lparr>Value = 7, Wildcards = [\<lparr>Name = ''a'', Min_w = 0, Max_w = 0\<rparr>], order = 1,
            parent_l = Some [snapshot [[[]]] [\<lparr>Name = ''a'', Min_w = 0, Max_w = 0\<rparr>] True 1],
            slashend = False\<rparr>)"
    by code_simp
  have s: "is_star '':a;'' = False" by code_simp
  have p: "splitParts False (splitInput (representation '':a;'')) = Inr ([[[]]], [\<lparr>Name = ''a'', Min_w = 0, Max_w = 0\<rparr>])"
    by code_simp
  have m: "map_of (edges (New :: nat Node)) (representation '':a;'') = None" by (simp add: New_def)
  from a s p have h: "add (New :: nat Node) 1 ('':a;'' # []) [] False 7 =
     (fst (add (New :: nat Node) 1 ['':a;''] [] False 7), snd (add (New :: nat Node) 1 ['':a;''] [] False 7)) \<and>
     \<not> is_star '':a;'' \<and>
     splitParts False (splitInput (representation '':a;'')) = Inr ([[[]]], [\<lparr>Name = ''a'', Min_w = 0, Max_w = 0\<rparr>])"
    by simp
  from edge_identity_by_key [where 'v = nat, THEN conjunct1, rule_format, OF h, THEN conjunct2] m
  have "map fst (edges (fst (add (New :: nat Node) 1 ['':a;''] [] False 7))) =
          map fst (edges (New :: nat Node)) @ [representation '':a;'']" by simp
  also have "\<dots> = ['':a'']" by (simp add: New_def representation_def)
  finally have k: "map fst (edges (fst (add (New :: nat Node) 1 ['':a;''] [] False 7))) = ['':a'']" .
  from a s p m k show ?thesis by (intro conjI)
qed

subsection \<open>Literal segments\<close>

lemma splitInput_loop_no_colon:
  "\<not> inw \<Longrightarrow> CHR '':'' \<notin> set s \<Longrightarrow> splitInput_loop s n i start a inw = a @ [drop start s]"
proof (induction s n i start a inw rule: splitInput_loop.induct)
  case (1 s n i start a inw)
  show ?case
  proof (cases "i + 1 \<le> length s \<and> length a + 1 < n")
    case True
    then have "s ! i \<in> set s" by simp
    with "1.prems" have ne: "s ! i \<noteq> CHR '':''" and ni: "\<not> inw" by auto
    then have no: "\<not> ((s ! i = CHR '':'' \<and> \<not> inw) \<or> (s ! i = CHR '';'' \<and> inw))" by simp
    from "1.IH"(2) [OF True no "1.prems"]
    have "splitInput_loop s n (i + 1) start a inw = a @ [drop start s]" .
    with True ne ni show ?thesis
      by (subst splitInput_loop.simps) simp
  next
    case False
    then show ?thesis by (subst splitInput_loop.simps) auto
  qed
qed

lemma splitInput_no_colon: "CHR '':'' \<notin> set s \<Longrightarrow> splitInput s = [s]"
  by (simp add: splitInput_def splitInput_loop_no_colon)

lemma splitPad_loop_hd:
  "a \<noteq> [] \<Longrightarrow> hd (splitPad_loop s n i start a) = hd a"
proof (induction s n i start a rule: splitPad_loop.induct)
  case (1 s n i start a)
  then show ?case by (subst splitPad_loop.simps) auto
qed

lemma splitPad_loop_prefix:
  "prefix (hd (splitPad_loop s n i 0 [])) s"
proof (induction s n i "0 :: nat" "[] :: string list" rule: splitPad_loop.induct)
  case (1 s n i)
  show ?case
  proof (cases "i + 1 \<le> length s \<and> length ([] :: string list) + 1 < n")
    case False
    then show ?thesis by (subst splitPad_loop.simps) auto
  next
    case True
    show ?thesis
    proof (cases "s ! i = CHR ''|''")
      case bar: True
      have "hd (splitPad_loop s n (i + 1) (i + 1) ([] @ [slice s 0 i])) = slice s 0 i"
        by (simp add: splitPad_loop_hd)
      moreover have "prefix (slice s 0 i) s" by (simp add: slice_def take_is_prefix)
      ultimately show ?thesis using True bar by (subst splitPad_loop.simps) simp
    next
      case False
      from "1.hyps"(2) [OF True False] True False show ?thesis
        by (subst splitPad_loop.simps) simp
    qed
  qed
qed

lemma splitPad_hd_prefix: "prefix (hd (splitPad s)) s"
  by (simp add: splitPad_def splitPad_loop_prefix)

lemma strings_Index_prefix: "prefix sub s \<Longrightarrow> strings_Index s sub = 0"
  by (cases s) simp_all

lemma representation_prefix: "prefix (representation el) el"
  by (simp add: representation_def prefixeq_butlast)

lemma representation_subset: "set (representation el) \<subseteq> set el"
  using representation_prefix [of el] by (rule set_mono_prefix)

lemma match_edge_fields:
  "padding e = padding e' \<Longrightarrow> wildcards e = wildcards e' \<Longrightarrow> wildend e = wildend e' \<Longrightarrow>
     match_edge e el = match_edge e' el"
  by (auto simp: match_edge_def split: sum.splits prod.splits)

lemma match_edge_literal:
  assumes "padding e = [splitPad k]" and "wildcards e = []" and "\<not> wildend e" and "prefix k el"
  shows "match_edge e el = Inr (Some [])"
proof -
  obtain pad pads where sp: "splitPad k = pad # pads"
    using splitPad_nonempty [of k] by (cases "splitPad k") auto
  with splitPad_hd_prefix [of k] have "prefix pad k" by simp
  with assms(4) have "prefix pad el" by (auto intro: prefix_order.trans)
  then have "strings_Index el pad = 0" by (rule strings_Index_prefix)
  with assms(1,2,3) sp show ?thesis by (simp add: match_edge_def)
qed

lemma literal_compiled:
  assumes "literal_segment el0" and "splitParts False (splitInput (representation el0)) = Inr (pd, ws)"
  shows "pd = [splitPad (representation el0)]" and "ws = []"
proof -
  from assms(1) representation_subset [of el0] have "CHR '':'' \<notin> set (representation el0)"
    by (auto simp: literal_segment_def)
  then have "splitInput (representation el0) = [representation el0]" by (rule splitInput_no_colon)
  with assms(2) show "pd = [splitPad (representation el0)]" and "ws = []" by simp_all
qed

subsection \<open>Accepted leaves below an edge\<close>

lemma accepted_edges_member:
  "(k, e) \<in> set es \<Longrightarrow> match_edge e el = Inr (Some variables) \<Longrightarrow>
     set (accepted (node e) els (exp @ variables)) \<subseteq> set (accepted_edges es el els exp)"
proof (induction es)
  case Nil
  then show ?case by simp
next
  case (Cons a es)
  obtain k' e' where a: "a = (k', e')" by (cases a)
  show ?case
  proof (cases "(k, e) = a")
    case True
    with a Cons.prems(2) show ?thesis by (auto simp: accepted_edges_Cons)
  next
    case False
    with Cons.prems(1) have "(k, e) \<in> set es" by simp
    from Cons.IH [OF this Cons.prems(2)] a show ?thesis by (auto simp: accepted_edges_Cons)
  qed
qed

lemma accepted_edges_update_mono:
  assumes "\<And>item. map_of es k = Some item \<Longrightarrow>
      set (case match_edge item el of Inr (Some variables) \<Rightarrow> accepted (node item) els (exp @ variables) | _ \<Rightarrow> [])
        \<subseteq> set (case match_edge e el of Inr (Some variables) \<Rightarrow> accepted (node e) els (exp @ variables) | _ \<Rightarrow> [])"
  shows "set (accepted_edges es el els exp) \<subseteq> set (accepted_edges (AList.update k e es) el els exp)"
  using assms
proof (induction es)
  case Nil
  then show ?case by simp
next
  case (Cons a es)
  obtain k' e' where a: "a = (k', e')" by (cases a)
  show ?case
  proof (cases "k' = k")
    case True
    with a Cons.prems [of e'] show ?thesis by (auto simp: accepted_edges_Cons)
  next
    case False
    with a Cons.prems have "\<And>item. map_of es k = Some item \<Longrightarrow>
      set (case match_edge item el of Inr (Some variables) \<Rightarrow> accepted (node item) els (exp @ variables) | _ \<Rightarrow> [])
        \<subseteq> set (case match_edge e el of Inr (Some variables) \<Rightarrow> accepted (node e) els (exp @ variables) | _ \<Rightarrow> [])"
      by simp
    from Cons.IH [OF this] False a show ?thesis by (auto simp: accepted_edges_Cons)
  qed
qed

lemma add_accepted_mono:
  "add n ord els' wcs se val = (n', r) \<Longrightarrow> set (accepted n els exp) \<subseteq> set (accepted n' els exp)"
proof (induction els' arbitrary: n n' wcs els exp)
  case Nil
  from Nil.prems show ?case
    by (cases rule: add_Nil_cases; cases els) (auto simp: accepted_sel_Nil accepted_sel_Cons)
next
  case (Cons el0 els')
  from Cons.prems show ?case
  proof (cases rule: add_Cons_cases)
    case (star_new l)
    then show ?thesis by (cases els) (auto simp: accepted_sel_Nil accepted_sel_Cons)
  next
    case (existing pd ws item child)
    let ?e = "Edge child (padding item) (wildcards item) (wildend item) (minorder item)"
    show ?thesis
    proof (cases els)
      case Nil
      with existing(5) show ?thesis by (simp add: accepted_sel_Nil)
    next
      case (Cons el rest)
      have me: "match_edge ?e el = match_edge item el" by (rule match_edge_fields) simp_all
      have "set (accepted_edges (edges n) el rest exp)
              \<subseteq> set (accepted_edges (AList.update (representation el0) ?e (edges n)) el rest exp)"
      proof (rule accepted_edges_update_mono)
        fix item' assume "map_of (edges n) (representation el0) = Some item'"
        with existing(3) have "item' = item" by simp
        with me Cons.IH [OF existing(4)]
        show "set (case match_edge item' el of Inr (Some variables) \<Rightarrow> accepted (node item') rest (exp @ variables) | _ \<Rightarrow> [])
          \<subseteq> set (case match_edge ?e el of Inr (Some variables) \<Rightarrow> accepted (node ?e) rest (exp @ variables) | _ \<Rightarrow> [])"
          by (auto split: sum.splits option.splits)
      qed
      with Cons existing(5) show ?thesis by (auto simp: accepted_sel_Cons)
    qed
  next
    case (fresh pd ws child)
    let ?e = "Edge child pd ws (length pd = length ws) ord"
    show ?thesis
    proof (cases els)
      case Nil
      with fresh(5) show ?thesis by (simp add: accepted_sel_Nil)
    next
      case (Cons el rest)
      have "set (accepted_edges (edges n) el rest exp)
              \<subseteq> set (accepted_edges (AList.update (representation el0) ?e (edges n)) el rest exp)"
        by (rule accepted_edges_update_mono) (simp add: fresh(3))
      with Cons fresh(5) show ?thesis by (auto simp: accepted_sel_Cons)
    qed
  qed simp_all
qed

lemma accepted_counter:
  "accepted (Node (edges t) (leaf t) (star t) c (parent t)) els exp = accepted t els exp"
  by (cases els) (simp_all add: accepted_sel_Nil [of t] accepted_sel_Cons [of t])

lemma Add_accepted_mono: "set (accepted_for t key) \<subseteq> set (accepted_for (fst (Add t k val)) key)"
proof (cases "k = [] \<or> hd k \<noteq> CHR ''/''")
  case True
  then show ?thesis by (auto simp: Add_def)
next
  case False
  let ?n1 = "Node (edges t) (leaf t) (star t) (leafs t + 1) (parent t)"
  show ?thesis
  proof (cases "splitPath k")
    case (Inl e)
    with False have "fst (Add t k val) = ?n1" by (simp add: Add_def Let_def)
    then show ?thesis by (simp add: accepted_for_def accepted_counter split: sum.splits)
  next
    case (Inr p)
    obtain els se where p: "p = (els, se)" by (cases p)
    obtain n' r where a: "add ?n1 (leafs t + 1) els [] se val = (n', r)"
      by (cases "add ?n1 (leafs t + 1) els [] se val")
    with False Inr p have f: "fst (Add t k val) = n'" by (simp add: Add_def Let_def)
    have "set (accepted t els' []) \<subseteq> set (accepted n' els' [])" for els'
      using add_accepted_mono [OF a, of els' "[]"] by (simp add: accepted_counter)
    then show ?thesis
      unfolding f by (cases "splitPath key") (auto simp: accepted_for_def)
  qed
qed

lemma later_accepted_mono: "later t t' \<Longrightarrow> set (accepted_for t key) \<subseteq> set (accepted_for t' key)"
proof (induction rule: later.induct)
  case (later_refl t)
  show ?case by simp
next
  case (later_Add t t' k val)
  with Add_accepted_mono [of t' key k val] show ?case by blast
qed

subsection \<open>Each stored leaf is accepted at most once\<close>

lemma subseq_set_distinct:
  "subseq xs ys \<Longrightarrow> set xs \<subseteq> set ys \<and> (distinct ys \<longrightarrow> distinct xs)"
  by (induction rule: list_emb.induct) auto

lemma accepted_subseq:
  "subseq (map fst (accepted (n :: 'v Node) els exp)) (leaves_of n)"
  "subseq (map fst (accepted_edges (es :: (string \<times> 'v Edge) list) el els exp)) (leaves_of_edges es)"
proof (induction n and es arbitrary: els exp and el els exp rule: leaves_of_leaves_of_edges.induct)
  case (1 es lf st c p)
  let ?lf = "case lf of None \<Rightarrow> [] | Some l \<Rightarrow> [l]" and ?st = "case st of None \<Rightarrow> [] | Some l \<Rightarrow> [l]"
  show ?case
  proof (cases els)
    case Nil
    have "subseq (?lf @ []) (?lf @ (?st @ leaves_of_edges es))"
      by (intro list_emb_append_mono) simp_all
    with Nil show ?thesis by (cases lf) simp_all
  next
    case (Cons el els')
    have "subseq (map fst (accepted_edges es el els' exp)) (leaves_of_edges es)"
      by (rule 1)
    then have "subseq (?st @ map fst (accepted_edges es el els' exp)) (?st @ leaves_of_edges es)"
      by (intro list_emb_append_mono) simp_all
    then have "subseq (?st @ map fst (accepted_edges es el els' exp)) (?lf @ ?st @ leaves_of_edges es)"
      by (rule list_emb_append2)
    with Cons show ?thesis by (cases st) simp_all
  qed
next
  case 2
  show ?case by simp
next
  case (3 k n pd ws we mo es)
  let ?c = "case match_edge (Edge n pd ws we mo) el of
              Inr (Some variables) \<Rightarrow> accepted n els (exp @ variables) | _ \<Rightarrow> []"
  have "subseq (map fst ?c) (leaves_of n)"
    using "3.IH"(1) by (auto split: sum.splits option.splits)
  moreover have "subseq (map fst (accepted_edges es el els exp)) (leaves_of_edges es)"
    by (rule "3.IH"(2))
  ultimately have "subseq (map fst ?c @ map fst (accepted_edges es el els exp))
      (leaves_of n @ leaves_of_edges es)"
    by (rule list_emb_append_mono)
  then show ?case by simp
qed

lemma accepted_for_distinct:
  assumes "distinct (map order (leaves_of t))"
  shows "distinct (map (order \<circ> fst) (accepted_for t key))"
proof -
  have "distinct (map order (map fst (accepted t els [])))" for els
    using subseq_set_distinct [OF subseq_map [OF accepted_subseq(1) [of t els "[]"], of order]] assms
    by simp
  then show ?thesis
    by (auto simp: accepted_for_def split: sum.splits)
qed

lemma accepted_for_same_order:
  assumes "distinct (map order (leaves_of t))"
    and "c \<in> set (accepted_for t key)" and "d \<in> set (accepted_for t key)" and "order (fst c) = order (fst d)"
  shows "c = d"
proof -
  from accepted_for_distinct [OF assms(1), of key] have "inj_on (order \<circ> fst) (set (accepted_for t key))"
    by (simp add: distinct_map)
  from inj_onD [OF this, of c d] assms(2,3,4) show ?thesis by simp
qed

subsection \<open>Patterns without wildcards are accepted for themselves\<close>

lemma add_literal_candidate:
  "add n ord els wcs se val = (n', Inr l) \<Longrightarrow> keyed n \<Longrightarrow> list_all literal_segment els \<Longrightarrow>
     (l, exp) \<in> set (accepted n' els exp)"
proof (induction els arbitrary: n n' wcs)
  case Nil
  from Nil.prems(1) show ?case
    by (cases rule: add_Nil_cases) (simp_all add: accepted_sel_Nil)
next
  case (Cons el0 els)
  let ?k = "representation el0"
  from Cons.prems(3) have lit: "literal_segment el0" and rest: "list_all literal_segment els" by simp_all
  from lit have ns: "\<not> is_star el0" by (simp add: literal_segment_def)
  from Cons.prems(2) have ke: "keyed_edges (edges n)" by (simp add: keyed_sel)
  have found: "(l, exp) \<in> set (accepted n' (el0 # els) exp)"
    if e: "map_of (edges n') ?k = Some e" and pd: "padding e = [splitPad ?k]" and ws: "wildcards e = []"
      and we: "\<not> wildend e" and rec: "(l, exp) \<in> set (accepted (node e) els exp)" for e
  proof -
    from pd ws we representation_prefix [of el0] have "match_edge e el0 = Inr (Some [])"
      by (rule match_edge_literal)
    moreover from e have "(?k, e) \<in> set (edges n')" by (rule map_of_SomeD)
    ultimately have "set (accepted (node e) els (exp @ [])) \<subseteq> set (accepted_edges (edges n') el0 els exp)"
      by (rule accepted_edges_member [rotated])
    with rec show ?thesis by (auto simp: accepted_sel_Cons)
  qed
  from Cons.prems(1) show ?case
  proof (cases rule: add_Cons_cases)
    case (existing pd ws item child)
    from literal_compiled [OF lit existing(2)] have c: "pd = [splitPad ?k]" "ws = []" .
    from keyed_edges_map_of [OF existing(3) ke] existing(2) c
    have it0: "padding item = [splitPad ?k]" "wildcards item = []" "keyed (node item)"
      and we: "wildend item = (length (padding item) = length (wildcards item))"
      by (auto simp: edge_keyed_def)
    from we it0 have "\<not> wildend item" by simp
    with it0 have it: "padding item = [splitPad ?k]" "wildcards item = []" "\<not> wildend item" "keyed (node item)"
      by simp_all
    from Cons.IH [OF existing(4) it(4) rest] have rec: "(l, exp) \<in> set (accepted child els exp)" .
    let ?e = "Edge child (padding item) (wildcards item) (wildend item) (minorder item)"
    from existing(5) have "map_of (edges n') ?k = Some ?e" by (simp add: update_same)
    from found [OF this] it rec show ?thesis by simp
  next
    case (fresh pd ws child)
    from literal_compiled [OF lit fresh(2)] have c: "pd = [splitPad ?k]" "ws = []" .
    have "keyed (Node [] None None 0 (snapshot pd ws (length pd = length ws) ord # parent n) :: 'a Node)"
      by simp
    from Cons.IH [OF fresh(4) this rest] have rec: "(l, exp) \<in> set (accepted child els exp)" .
    let ?e = "Edge child pd ws (length pd = length ws) ord"
    from fresh(5) have "map_of (edges n') ?k = Some ?e" by (simp add: update_same)
    from found [OF this] c rec show ?thesis by simp
  qed (use ns in simp_all)
qed

lemma Add_literal_candidate:
  assumes "Add t p v = (t1, Inr l)" and "keyed t" and "splitPath p = Inr (els, se)"
    and "list_all literal_segment els"
  shows "(l, []) \<in> set (accepted_for t1 p)"
proof -
  from assms(1) obtain els' se' where k: "p \<noteq> []" "hd p = CHR ''/''" and sp: "splitPath p = Inr (els', se')"
    and a: "add (Node (edges t) (leaf t) (star t) (leafs t + 1) (parent t)) (leafs t + 1) els' [] se' v = (t1, Inr l)"
    by (rule Add_Inr_cases)
  from sp assms(3) have eq: "els' = els" by simp
  from assms(2) have "keyed (Node (edges t) (leaf t) (star t) (leafs t + 1) (parent t))"
    by (simp add: keyed_sel)
  from add_literal_candidate [OF a [unfolded eq] this assms(4), of "[]"] k assms(3)
  show ?thesis by (simp add: accepted_for_def)
qed

subsection \<open>Leaves reached along edges that pass a test\<close>

lemma routes_sel_Nil: "routes P n [] = (case leaf n of None \<Rightarrow> [] | Some l \<Rightarrow> [l])"
  by (cases n) simp

lemma routes_sel_Cons:
  "routes P n (el # elements) =
     (case star n of None \<Rightarrow> [] | Some s \<Rightarrow> [s]) @ routes_edges P (edges n) el elements"
  by (cases n) simp

lemma routes_edges_Cons:
  "routes_edges P ((k, e) # es) el elements =
     (if P e el then routes P (node e) elements else []) @ routes_edges P es el elements"
  by (cases e) simp

lemma accepted_routes:
  "map fst (accepted (n :: 'v Node) els exp) = routes scan_accepts n els"
  "map fst (accepted_edges (es :: (string \<times> 'v Edge) list) el els exp) = routes_edges scan_accepts es el els"
proof (induction n and es arbitrary: els exp and el els exp rule: leaves_of_leaves_of_edges.induct)
  case (1 es lf st c p)
  show ?case
  proof (cases els)
    case Nil
    then show ?thesis by (simp split: option.splits)
  next
    case (Cons el els')
    with 1 [where el = el and els = els' and exp = exp] show ?thesis by (simp split: option.splits)
  qed
next
  case 2
  then show ?case by simp
next
  case (3 k n pd ws we mo es)
  from "3.IH"(1) "3.IH"(2) [where el = el and els = els and exp = exp] show ?case
    by (simp add: scan_accepts_def split: sum.splits option.splits)
qed

lemma accepted_for_scanned:
  assumes "key \<noteq> []" and "hd key = CHR ''/''" and "splitPath key = Inr (els, se)"
  shows "fst ` set (accepted_for t key) = set (scanned t els)"
proof -
  from assms have "accepted_for t key = accepted t els []" by (simp add: accepted_for_def)
  with accepted_routes(1) [of t els "[]"] show ?thesis
    by (simp add: scanned_def flip: set_map)
qed

lemma routes_leaves:
  "set (routes P (n :: 'v Node) els) \<subseteq> set (leaves_of n)"
  "set (routes_edges P (es :: (string \<times> 'v Edge) list) el els) \<subseteq> set (leaves_of_edges es)"
proof (induction n and es arbitrary: els and el els rule: leaves_of_leaves_of_edges.induct)
  case (1 es lf st c p)
  show ?case
  proof (cases els)
    case Nil
    then show ?thesis by (auto split: option.splits)
  next
    case (Cons el els')
    with 1 [where el = el and els = els'] show ?thesis by (auto split: option.splits)
  qed
next
  case 2
  then show ?case by simp
next
  case (3 k n pd ws we mo es)
  from "3.IH"(1) "3.IH"(2) [where el = el and els = els] show ?case
    by (auto split: if_splits)
qed

lemma routes_edges_member:
  "(k, e) \<in> set es \<Longrightarrow> P e el \<Longrightarrow> set (routes P (node e) els) \<subseteq> set (routes_edges P es el els)"
proof (induction es)
  case Nil
  then show ?case by simp
next
  case (Cons a es)
  obtain k' e' where a: "a = (k', e')" by (cases a)
  show ?case
  proof (cases "(k, e) = a")
    case True
    with a Cons.prems(2) show ?thesis by (auto simp: routes_edges_Cons)
  next
    case False
    with Cons.prems(1) have "(k, e) \<in> set es" by simp
    from Cons.IH [OF this Cons.prems(2)] a show ?thesis by (auto simp: routes_edges_Cons)
  qed
qed

lemma routes_edges_update_mono:
  assumes "\<And>item. map_of es k = Some item \<Longrightarrow>
      set (if P item el then routes P (node item) els else []) \<subseteq> set (if P e el then routes P (node e) els else [])"
  shows "set (routes_edges P es el els) \<subseteq> set (routes_edges P (AList.update k e es) el els)"
  using assms
proof (induction es)
  case Nil
  then show ?case by simp
next
  case (Cons a es)
  obtain k' e' where a: "a = (k', e')" by (cases a)
  show ?case
  proof (cases "k' = k")
    case True
    with a Cons.prems [of e'] show ?thesis by (auto simp: routes_edges_Cons)
  next
    case False
    with a Cons.prems have "\<And>item. map_of es k = Some item \<Longrightarrow>
      set (if P item el then routes P (node item) els else []) \<subseteq> set (if P e el then routes P (node e) els else [])"
      by simp
    from Cons.IH [OF this] False a show ?thesis by (auto simp: routes_edges_Cons)
  qed
qed

lemma edge_matches_fields:
  "padding e = padding e' \<Longrightarrow> wildcards e = wildcards e' \<Longrightarrow> edge_matches e el = edge_matches e' el"
  by (simp add: edge_matches_def)

lemma add_matches_mono:
  "add n ord els' wcs se val = (n', r) \<Longrightarrow>
     set (routes edge_matches n els) \<subseteq> set (routes edge_matches n' els)"
proof (induction els' arbitrary: n n' wcs els)
  case Nil
  from Nil.prems show ?case
    by (cases rule: add_Nil_cases; cases els) (auto simp: routes_sel_Nil routes_sel_Cons)
next
  case (Cons el0 els')
  from Cons.prems show ?case
  proof (cases rule: add_Cons_cases)
    case (star_new l)
    then show ?thesis by (cases els) (auto simp: routes_sel_Nil routes_sel_Cons)
  next
    case (existing pd ws item child)
    let ?e = "Edge child (padding item) (wildcards item) (wildend item) (minorder item)"
    show ?thesis
    proof (cases els)
      case Nil
      with existing(5) show ?thesis by (simp add: routes_sel_Nil)
    next
      case (Cons el rest)
      have me: "edge_matches ?e el = edge_matches item el" by (rule edge_matches_fields) simp_all
      have "set (routes_edges edge_matches (edges n) el rest)
              \<subseteq> set (routes_edges edge_matches (AList.update (representation el0) ?e (edges n)) el rest)"
      proof (rule routes_edges_update_mono)
        fix item' assume "map_of (edges n) (representation el0) = Some item'"
        with existing(3) have "item' = item" by simp
        with me Cons.IH [OF existing(4)]
        show "set (if edge_matches item' el then routes edge_matches (node item') rest else [])
          \<subseteq> set (if edge_matches ?e el then routes edge_matches (node ?e) rest else [])"
          by auto
      qed
      with Cons existing(5) show ?thesis by (auto simp: routes_sel_Cons)
    qed
  next
    case (fresh pd ws child)
    let ?e = "Edge child pd ws (length pd = length ws) ord"
    show ?thesis
    proof (cases els)
      case Nil
      with fresh(5) show ?thesis by (simp add: routes_sel_Nil)
    next
      case (Cons el rest)
      have "set (routes_edges edge_matches (edges n) el rest)
              \<subseteq> set (routes_edges edge_matches (AList.update (representation el0) ?e (edges n)) el rest)"
        by (rule routes_edges_update_mono) (simp add: fresh(3))
      with Cons fresh(5) show ?thesis by (auto simp: routes_sel_Cons)
    qed
  qed simp_all
qed

lemma routes_counter:
  "routes P (Node (edges t) (leaf t) (star t) c (parent t)) els = routes P t els"
  by (cases els) (simp_all add: routes_sel_Nil [of P t] routes_sel_Cons [of P t])

lemma Add_matches_mono: "set (matches t els) \<subseteq> set (matches (fst (Add t k val)) els)"
proof (cases "k = [] \<or> hd k \<noteq> CHR ''/''")
  case True
  then show ?thesis by (auto simp: Add_def)
next
  case False
  let ?n1 = "Node (edges t) (leaf t) (star t) (leafs t + 1) (parent t)"
  show ?thesis
  proof (cases "splitPath k")
    case (Inl e)
    with False have "fst (Add t k val) = ?n1" by (simp add: Add_def Let_def)
    then show ?thesis by (simp add: matches_def routes_counter)
  next
    case (Inr q)
    obtain els' se where q: "q = (els', se)" by (cases q)
    obtain n' r where a: "add ?n1 (leafs t + 1) els' [] se val = (n', r)"
      by (cases "add ?n1 (leafs t + 1) els' [] se val")
    with False Inr q have f: "fst (Add t k val) = n'" by (simp add: Add_def Let_def)
    from add_matches_mono [OF a, of els] show ?thesis
      unfolding f by (simp add: matches_def routes_counter)
  qed
qed

lemma later_matches_mono: "later t t' \<Longrightarrow> set (matches t els) \<subseteq> set (matches t' els)"
proof (induction rule: later.induct)
  case (later_refl t)
  show ?case by simp
next
  case (later_Add t t' k val)
  with Add_matches_mono [of t' els k val] show ?case by blast
qed

subsection \<open>Patterns without markup match themselves\<close>

lemma splitPad_loop_no_bar:
  "CHR ''|'' \<notin> set s \<Longrightarrow> splitPad_loop s n i start a = a @ [drop start s]"
proof (induction s n i start a rule: splitPad_loop.induct)
  case (1 s n i start a)
  show ?case
  proof (cases "i + 1 \<le> length s \<and> length a + 1 < n")
    case True
    then have "s ! i \<in> set s" by simp
    with "1.prems" have ne: "s ! i \<noteq> CHR ''|''" by auto
    from "1.IH"(2) [OF True ne "1.prems"]
    have "splitPad_loop s n (i + 1) start a = a @ [drop start s]" .
    with True ne show ?thesis
      by (subst splitPad_loop.simps) simp
  next
    case False
    then show ?thesis by (subst splitPad_loop.simps) auto
  qed
qed

lemma splitPad_no_bar: "CHR ''|'' \<notin> set s \<Longrightarrow> splitPad s = [s]"
  by (simp add: splitPad_def splitPad_loop_no_bar)

lemma plain_literal: "plain_segment el \<Longrightarrow> literal_segment el"
  by (simp add: plain_segment_def literal_segment_def)

lemma plain_representation: "plain_segment el \<Longrightarrow> representation el = el"
  by (auto simp: plain_segment_def representation_def)

lemma plain_edge_matches:
  assumes "plain_segment el" and "padding e = [splitPad (representation el)]" and "wildcards e = []"
  shows "edge_matches e el"
proof -
  from assms(1) have "splitPad (representation el) = [el]"
    by (simp add: plain_representation splitPad_no_bar plain_segment_def)
  with assms(2,3) show ?thesis by (simp add: edge_matches_def)
qed

lemma add_plain_matches:
  "add n ord els wcs se val = (n', Inr l) \<Longrightarrow> keyed n \<Longrightarrow> list_all plain_segment els \<Longrightarrow>
     l \<in> set (routes edge_matches n' els)"
proof (induction els arbitrary: n n' wcs)
  case Nil
  from Nil.prems(1) show ?case
    by (cases rule: add_Nil_cases) (simp_all add: routes_sel_Nil)
next
  case (Cons el0 els)
  let ?k = "representation el0"
  from Cons.prems(3) have pl: "plain_segment el0" and rest: "list_all plain_segment els" by simp_all
  from pl have lit: "literal_segment el0" by (rule plain_literal)
  from lit have ns: "\<not> is_star el0" by (simp add: literal_segment_def)
  from Cons.prems(2) have ke: "keyed_edges (edges n)" by (simp add: keyed_sel)
  have found: "l \<in> set (routes edge_matches n' (el0 # els))"
    if e: "map_of (edges n') ?k = Some e" and pd: "padding e = [splitPad ?k]" and ws: "wildcards e = []"
      and rec: "l \<in> set (routes edge_matches (node e) els)" for e
  proof -
    from pl pd ws have "edge_matches e el0" by (rule plain_edge_matches)
    moreover from e have "(?k, e) \<in> set (edges n')" by (rule map_of_SomeD)
    ultimately have "set (routes edge_matches (node e) els) \<subseteq> set (routes_edges edge_matches (edges n') el0 els)"
      by (rule routes_edges_member [rotated])
    with rec show ?thesis by (auto simp: routes_sel_Cons)
  qed
  from Cons.prems(1) show ?case
  proof (cases rule: add_Cons_cases)
    case (existing pd ws item child)
    from literal_compiled [OF lit existing(2)] have c: "pd = [splitPad ?k]" "ws = []" .
    from keyed_edges_map_of [OF existing(3) ke] existing(2) c
    have it: "padding item = [splitPad ?k]" "wildcards item = []" "keyed (node item)"
      by (auto simp: edge_keyed_def)
    from Cons.IH [OF existing(4) it(3) rest] have rec: "l \<in> set (routes edge_matches child els)" .
    let ?e = "Edge child (padding item) (wildcards item) (wildend item) (minorder item)"
    from existing(5) have "map_of (edges n') ?k = Some ?e" by (simp add: update_same)
    from found [OF this] it rec show ?thesis by simp
  next
    case (fresh pd ws child)
    from literal_compiled [OF lit fresh(2)] have c: "pd = [splitPad ?k]" "ws = []" .
    have "keyed (Node [] None None 0 (snapshot pd ws (length pd = length ws) ord # parent n) :: 'a Node)"
      by simp
    from Cons.IH [OF fresh(4) this rest] have rec: "l \<in> set (routes edge_matches child els)" .
    let ?e = "Edge child pd ws (length pd = length ws) ord"
    from fresh(5) have "map_of (edges n') ?k = Some ?e" by (simp add: update_same)
    from found [OF this] c rec show ?thesis by simp
  qed (use ns in simp_all)
qed

lemma Add_plain_matches:
  assumes "Add t p v = (t1, Inr l)" and "keyed t" and "splitPath p = Inr (els, se)"
    and "list_all plain_segment els"
  shows "l \<in> set (matches t1 els)"
proof -
  from assms(1) obtain els' se' where k: "p \<noteq> []" "hd p = CHR ''/''" and sp: "splitPath p = Inr (els', se')"
    and a: "add (Node (edges t) (leaf t) (star t) (leafs t + 1) (parent t)) (leafs t + 1) els' [] se' v = (t1, Inr l)"
    by (rule Add_Inr_cases)
  from sp assms(3) have eq: "els' = els" by simp
  from assms(2) have "keyed (Node (edges t) (leaf t) (star t) (leafs t + 1) (parent t))"
    by (simp add: keyed_sel)
  from add_plain_matches [OF a [unfolded eq] this assms(4)] show ?thesis by (simp add: matches_def)
qed

subsection \<open>A literal edge accepts every segment that begins with its text\<close>

lemma Find_earliest_scanned:
  assumes "reachable t"
  shows "\<exists>lf exps. Find grow t key = Inr (lf, exps) \<and>
           (case lf of
              None \<Rightarrow> accepted_for t key = []
            | Some l \<Rightarrow> l \<in> fst ` set (accepted_for t key) \<and>
                        (\<forall>c \<in> set (accepted_for t key). order l \<le> order (fst c)))"
proof -
  from reachable_root_inv [OF assms] have wf: "wf_node t" by (simp add: root_inv_def)
  from Search_best [OF wf, of key] obtain lf ex where s: "Search t key = Inr (lf, ex)"
    and b: "best_of (set (accepted_for t key)) (lf, ex)" by (metis prod.collapse)
  from Find_Search [OF s, of grow] obtain ex' where f: "Find grow t key = Inr (lf, ex')" by blast
  from b have "case lf of
              None \<Rightarrow> accepted_for t key = []
            | Some l \<Rightarrow> l \<in> fst ` set (accepted_for t key) \<and>
                        (\<forall>c \<in> set (accepted_for t key). order l \<le> order (fst c))"
    by (cases lf) (force simp: best_of_def)+
  with f show ?thesis by blast
qed

lemma a_compiled:
  "splitPath ''/a'' = Inr ([''a''], False)"
  "splitPath ''/abc'' = Inr ([''abc''], False)"
  "is_star ''a'' = False" "is_star ''abc'' = False"
  "representation ''a'' = ''a''" "representation ''abc'' = ''abc''"
  "splitParts False (splitInput ''a'') = Inr ([[''a'']], [])"
  "splitParts False (splitInput ''abc'') = Inr ([[''abc'']], [])"
  by code_simp+

lemma a_first: "snd (Add New ''/a'' v1) = Inr (a_leaf v1)"
  by (simp add: Add_def New_def a_compiled add.simps(2) Let_def snapshot_def a_leaf_def)

lemma abc_second: "snd (Add (fst (Add New ''/a'' v1)) ''/abc'' v2) = Inr (abc_leaf v2)"
  by (simp add: Add_def New_def a_compiled add.simps(2) Let_def snapshot_def abc_leaf_def)

lemma abc_find:
  "Find grow (fst (Add (fst (Add New ''/a'' v1)) ''/abc'' v2)) ''/abc'' = Inr (Some (a_leaf v1), [])"
  by (simp add: Add_def New_def a_compiled add.simps(2) Let_def snapshot_def a_leaf_def abc_leaf_def
        Find_def match_edge_def out_of_bounds_def append_slice_def nil_slice_def elems_def)

lemma abc_matches:
  "matches (fst (Add (fst (Add New ''/a'' v1)) ''/abc'' v2)) [''abc''] = [abc_leaf v2]"
  by (simp add: Add_def New_def a_compiled add.simps(2) Let_def snapshot_def a_leaf_def abc_leaf_def
        matches_def edge_matches_def)

text \<open>
  Claim C1 says that a leaf returned by \<open>Find\<close> belongs to the registered pattern of
  least insertion order among those that can match the path. With \<open>/a\<close> registered
  before \<open>/abc\<close>, \<open>Find("/abc")\<close> returns the leaf of \<open>/a\<close>, for every choice of
  capacities: the only segment of the path is \<open>abc\<close>, the pattern \<open>/a\<close> does not
  match it, and the one registered pattern that does, \<open>/abc\<close>, is passed over. The
  test of an edge that does not end in a wildcard stops after its last padding and
  never looks at what is left of the segment.
\<close>

theorem Find_returns_unmatched_pattern:
  "snd (Add New ''/a'' v1) = Inr (a_leaf v1) \<and>
   snd (Add (fst (Add New ''/a'' v1)) ''/abc'' v2) = Inr (abc_leaf v2) \<and>
   splitPath ''/abc'' = Inr ([''abc''], False) \<and>
   matches (fst (Add (fst (Add New ''/a'' v1)) ''/abc'' v2)) [''abc''] = [abc_leaf v2] \<and>
   Find grow (fst (Add (fst (Add New ''/a'' v1)) ''/abc'' v2)) ''/abc'' = Inr (Some (a_leaf v1), []) \<and>
   a_leaf v1 \<noteq> abc_leaf v2"
proof -
  have "a_leaf v1 \<noteq> abc_leaf v2" by (simp add: a_leaf_def abc_leaf_def)
  with a_first [of v1] abc_second [of v1 v2] a_compiled(2) abc_matches [of v1 v2] abc_find [of grow v1 v2]
  show ?thesis by (intro conjI)
qed

subsection \<open>Patterns without markup, looked up as paths\<close>

lemma notfound_second:
  "snd (Add (fst (Add New ''/:a/:b'' v1)) ''/not/found'' v2) = Inr (notfound_leaf v2)"
  by (simp add: Add_def New_def ab_compiled add.simps(2) Let_def snapshot_def ab_leaf_def notfound_leaf_def)

text \<open>
  Claim C2 says that \<open>Find(p)\<close> returns the leaf of every registered pattern \<open>p\<close>
  without wildcards, whatever else is registered. With \<open>/:a/:b\<close> registered before
  \<open>/not/found\<close>, \<open>Find("/not/found")\<close> returns the leaf of \<open>/:a/:b\<close>, with two
  expansions: the pattern registered first wins.
\<close>

theorem literal_pattern_counterexample:
  "snd (Add (fst (Add (New :: nat Node) ''/:a/:b'' 4)) ''/not/found'' 5) = Inr (notfound_leaf 5) \<and>
   Find growslice (fst (Add (fst (Add (New :: nat Node) ''/:a/:b'' 4)) ''/not/found'' 5)) ''/not/found'' =
     Inr (Some (ab_leaf 4), [''not'', ''found'']) \<and>
   ab_leaf (4 :: nat) \<noteq> notfound_leaf 5"
proof -
  have "ab_leaf (4 :: nat) \<noteq> notfound_leaf 5" by (simp add: ab_leaf_def notfound_leaf_def)
  with notfound_second [of "4 :: nat" 5] ab_find [of growslice "4 :: nat" 5] show ?thesis by (intro conjI)
qed

text \<open>
  Claim C2 as amended: let \<open>p\<close> be a pattern whose segments carry no markup,
  registered by a successful \<open>Add\<close> in a trie built from a new root. In that trie
  and in every later state of it, the pattern \<open>p\<close> matches the path \<open>p\<close>, and
  \<open>Find(p)\<close> returns the leaf of \<open>p\<close> with an empty expansion list unless a pattern
  registered earlier also matches \<open>p\<close>, in which case the leaf of the earliest such
  pattern is returned. This is stated for the tries in which, among the leaves older
  than that of \<open>p\<close>, the scan of \<open>find\<close> accepts the path for exactly those whose
  patterns match it; it holds for every choice of capacities.
\<close>

theorem literal_pattern_found_unless_preceded:
  assumes "reachable t" and "Add t p v = (t1, Inr l)" and "splitPath p = Inr (els, se)"
    and "list_all plain_segment els" and "later t1 t2"
    and "\<forall>l' \<in> set (leaves_of t2). order l' < order l \<longrightarrow>
           (l' \<in> set (scanned t2 els)) = (l' \<in> set (matches t2 els))"
  shows "l \<in> set (matches t2 els) \<and>
         (\<exists>l' exps. Find grow t2 p = Inr (Some l', exps) \<and>
            l' \<in> set (matches t2 els) \<and> (\<forall>m \<in> set (matches t2 els). order l' \<le> order m) \<and>
            (l' = l \<longrightarrow> exps = []) \<and>
            ((\<forall>m \<in> set (matches t2 els). order l \<le> order m) \<longrightarrow> l' = l \<and> exps = []))"
proof -
  from assms(2) have t1: "t1 = fst (Add t p v)" by simp
  from assms(1) have r1: "reachable t1" unfolding t1 by (rule reachable_Add)
  from later_reachable [OF assms(5) r1] have r2: "reachable t2" .
  from reachable_root_inv [OF r2] have wf: "wf_node t2" and dist: "distinct (map order (leaves_of t2))"
    by (simp_all add: root_inv_def)
  from assms(2) have k: "p \<noteq> []" "hd p = CHR ''/''" by (auto simp: Add_def split: if_splits)
  from assms(4) have lit: "list_all literal_segment els"
    by (simp add: list_all_iff plain_literal)
  from Add_literal_candidate [OF assms(2) reachable_keyed [OF assms(1)] assms(3) lit]
    later_accepted_mono [OF assms(5), of p]
  have cand: "(l, []) \<in> set (accepted_for t2 p)" by blast
  from Add_plain_matches [OF assms(2) reachable_keyed [OF assms(1)] assms(3,4)]
    later_matches_mono [OF assms(5), of els]
  have lm: "l \<in> set (matches t2 els)" by blast
  note sc = accepted_for_scanned [OF k assms(3), of t2]
  from Search_best [OF wf, of p] obtain lf ex where s: "Search t2 p = Inr (lf, ex)"
    and bo: "best_of (set (accepted_for t2 p)) (lf, ex)" by (metis prod.collapse)
  from bo cand obtain l' where lf: "lf = Some l'" by (cases lf) (auto simp: best_of_def)
  from bo lf have mem: "(l', ex) \<in> set (accepted_for t2 p)"
    and least: "\<forall>c \<in> set (accepted_for t2 p). order l' \<le> order (fst c)"
    by (simp_all add: best_of_def)
  from least cand have le: "order l' \<le> order l" by fastforce
  from Find_Search [OF s [unfolded lf], of grow] obtain exps
    where f: "Find grow t2 p = Inr (Some l', exps)" and emp: "ex = [] \<longrightarrow> exps = []" by blast
  have same: "l' = l \<and> exps = []" if "order l' = order l"
  proof -
    from that have "order (fst (l', ex)) = order (fst (l, [] :: string list))" by simp
    from accepted_for_same_order [OF dist mem cand this] emp show ?thesis by simp
  qed
  from mem sc have l'sc: "l' \<in> set (scanned t2 els)" by force
  with routes_leaves(1) [of scan_accepts t2 els] have l'lv: "l' \<in> set (leaves_of t2)"
    by (auto simp: scanned_def)
  have l'm: "l' \<in> set (matches t2 els)"
  proof (cases "order l' = order l")
    case True
    with same lm show ?thesis by simp
  next
    case False
    with le have "order l' < order l" by simp
    with assms(6) l'lv l'sc show ?thesis by blast
  qed
  have minimal: "order l' \<le> order m" if m: "m \<in> set (matches t2 els)" for m
  proof (cases "order m < order l")
    case True
    from m routes_leaves(1) [of edge_matches t2 els] have "m \<in> set (leaves_of t2)"
      by (auto simp: matches_def)
    with assms(6) True m have "m \<in> set (scanned t2 els)" by blast
    with sc have "m \<in> fst ` set (accepted_for t2 p)" by simp
    then obtain c where "c \<in> set (accepted_for t2 p)" and "fst c = m" by auto
    with least show ?thesis by auto
  next
    case False
    with le show ?thesis by simp
  qed
  have first: "l' = l \<and> exps = []" if "\<forall>m \<in> set (matches t2 els). order l \<le> order m"
  proof -
    from that l'm have "order l \<le> order l'" by blast
    with le have "order l' = order l" by simp
    then show ?thesis by (rule same)
  qed
  from same have unchanged: "l' = l \<longrightarrow> exps = []" by simp
  from minimal have min': "\<forall>m \<in> set (matches t2 els). order l' \<le> order m" by blast
  from first have first': "(\<forall>m \<in> set (matches t2 els). order l \<le> order m) \<longrightarrow> l' = l \<and> exps = []" by blast
  from f l'm min' unchanged first'
  have "\<exists>l' exps. Find grow t2 p = Inr (Some l', exps) \<and>
            l' \<in> set (matches t2 els) \<and> (\<forall>m \<in> set (matches t2 els). order l' \<le> order m) \<and>
            (l' = l \<longrightarrow> exps = []) \<and>
            ((\<forall>m \<in> set (matches t2 els). order l \<le> order m) \<longrightarrow> l' = l \<and> exps = [])"
    by (intro exI conjI)
  with lm show ?thesis by (intro conjI)
qed

theorem literal_pattern_found_unless_preceded_witness:
  "reachable (fst (Add (New :: nat Node) ''/:a/:b'' 4)) \<and>
   Add (fst (Add (New :: nat Node) ''/:a/:b'' 4)) ''/not/found'' 5 =
     (fst (Add (fst (Add (New :: nat Node) ''/:a/:b'' 4)) ''/not/found'' 5), Inr (notfound_leaf 5)) \<and>
   splitPath ''/not/found'' = Inr ([''not'', ''found''], False) \<and>
   list_all plain_segment [''not'', ''found''] \<and>
   later (fst (Add (fst (Add (New :: nat Node) ''/:a/:b'' 4)) ''/not/found'' 5))
         (fst (Add (fst (Add (fst (Add (New :: nat Node) ''/:a/:b'' 4)) ''/not/found'' 5)) ''/not/:x'' 6)) \<and>
   map order (leaves_of (fst (Add (fst (Add (fst (Add (New :: nat Node) ''/:a/:b'' 4)) ''/not/found'' 5)) ''/not/:x'' 6))) = [1, 2, 3] \<and>
   map order (scanned (fst (Add (fst (Add (fst (Add (New :: nat Node) ''/:a/:b'' 4)) ''/not/found'' 5)) ''/not/:x'' 6)) [''not'', ''found'']) = [1, 2, 3] \<and>
   map order (matches (fst (Add (fst (Add (fst (Add (New :: nat Node) ''/:a/:b'' 4)) ''/not/found'' 5)) ''/not/:x'' 6)) [''not'', ''found'']) = [1, 2, 3] \<and>
   (\<exists>l' exps. Find growslice (fst (Add (fst (Add (fst (Add (New :: nat Node) ''/:a/:b'' 4)) ''/not/found'' 5)) ''/not/:x'' 6)) ''/not/found'' = Inr (Some l', exps) \<and>
      l' \<in> set (matches (fst (Add (fst (Add (fst (Add (New :: nat Node) ''/:a/:b'' 4)) ''/not/found'' 5)) ''/not/:x'' 6)) [''not'', ''found'']) \<and>
      order l' = 1)"
proof -
  let ?t = "fst (Add (New :: nat Node) ''/:a/:b'' 4)"
  let ?t1 = "fst (Add ?t ''/not/found'' 5)"
  let ?t2 = "fst (Add ?t1 ''/not/:x'' 6)"
  have r: "reachable ?t" by (intro reachable_Add reachable_New)
  have a: "Add ?t ''/not/found'' 5 = (?t1, Inr (notfound_leaf 5))"
    using notfound_second [of "4 :: nat" 5] by (simp add: prod_eq_iff)
  have sp: "splitPath ''/not/found'' = Inr ([''not'', ''found''], False)" by code_simp
  have pl: "list_all plain_segment [''not'', ''found'']" by code_simp
  have lt: "later ?t1 ?t2" by (intro later_Add later_refl)
  have h: "\<forall>l' \<in> set (leaves_of ?t2). order l' < order (notfound_leaf (5 :: nat)) \<longrightarrow>
      (l' \<in> set (scanned ?t2 [''not'', ''found''])) = (l' \<in> set (matches ?t2 [''not'', ''found'']))"
    by code_simp
  have ords: "map order (matches ?t2 [''not'', ''found'']) = [1, 2, 3]" by code_simp
  have lvs: "map order (leaves_of ?t2) = [1, 2, 3]" by code_simp
  have scs: "map order (scanned ?t2 [''not'', ''found'']) = [1, 2, 3]" by code_simp
  from literal_pattern_found_unless_preceded [OF r a sp pl lt h, of growslice]
  obtain l' exps where f: "Find growslice ?t2 ''/not/found'' = Inr (Some l', exps)"
    and m: "l' \<in> set (matches ?t2 [''not'', ''found''])"
    and least: "\<forall>m \<in> set (matches ?t2 [''not'', ''found'']). order l' \<le> order m"
    by blast
  from m have "order l' \<in> set (map order (matches ?t2 [''not'', ''found'']))" by simp
  with ords have "order l' \<in> {1, 2, 3}" by simp
  moreover have "\<forall>x \<in> set (map order (matches ?t2 [''not'', ''found''])). order l' \<le> x"
    using least by simp
  with ords have "order l' \<le> 1" by simp
  ultimately have "order l' = 1" by auto
  with f m have "\<exists>l' exps. Find growslice ?t2 ''/not/found'' = Inr (Some l', exps) \<and>
      l' \<in> set (matches ?t2 [''not'', ''found'']) \<and> order l' = 1" by blast
  with r a sp pl lt lvs scs ords show ?thesis by (intro conjI)
qed

subsection \<open>The rest-of-path wildcard\<close>

lemma Add_star_rest:
  "Add New ''/*rest'' v = (Node [] None (Some (star_leaf v)) 1 [], Inr (star_leaf v))"
  by (simp add: Add_def New_def splitPath_def star_leaf_def Let_def is_star_def add.simps(2))

lemma find_star_only:
  "es \<noteq> [] \<Longrightarrow> \<exists>s h. find_node grow (Node [] None (Some l) c p) es nil_slice [] = Inr (Some l, s, h) \<and>
      elems s h = [strings_Join es ''/'']"
  by (cases es) (simp_all add: append_slice_def nil_slice_def elems_def Let_def)

lemma star_at_root:
  assumes "key \<noteq> []" and "hd key = CHR ''/''" and "splitPath key = Inr (es, se)" and "es \<noteq> []"
  shows "Find grow (fst (Add New ''/*rest'' v)) key = Inr (Some (star_leaf v), [strings_Join es ''/''])"
proof -
  from find_star_only [OF assms(4), of grow "star_leaf v" 1 "[]"] obtain s h
    where "find_node grow (Node [] None (Some (star_leaf v)) 1 []) es nil_slice [] = Inr (Some (star_leaf v), s, h)"
      and "elems s h = [strings_Join es ''/'']" by blast
  with assms show ?thesis by (simp add: Add_star_rest Find_def)
qed

lemma star_not_at_root: "Find grow (fst (Add New ''/*rest'' v)) ''/'' = Inr (None, [])"
  by (simp add: Add_star_rest Find_def splitPath_def elems_def nil_slice_def)

lemma star_found_below:
  assumes "wf_node n" and "star n = Some l" and "els \<noteq> []"
  shows "\<exists>l' s h'. find_node grow n els exp h = Inr (Some l', s, h') \<and> order l' \<le> order l"
proof -
  from assms(3) obtain el rest where els: "els = el # rest" by (cases els) auto
  obtain ex :: "string list" where len: "s_len exp = length ex"
    using Ex_list_of_length [of "s_len exp"] by metis
  from search_best(1) [OF assms(1), of els ex] obtain res
    where sn: "search_node n els ex = Inr res" and bo: "best_of (set (accepted n els ex)) res" by blast
  obtain lf tex where res: "res = (lf, tex)" by (cases res)
  from assms(2) els have mem: "(l, ex @ [strings_Join els ''/'']) \<in> set (accepted n els ex)"
    by (simp add: accepted_sel_Cons)
  with bo res obtain l' where lf: "lf = Some l'" and le: "order l' \<le> order l"
    by (cases lf) (auto simp: best_of_def)
  from find_node_search(1) [OF len, of grow n els h] sn res lf obtain s h'
    where "find_node grow n els exp h = Inr (Some l', s, h')" by (auto simp: agrees_Inr)
  with le show ?thesis by blast
qed

lemma star_not_without_segment: "find_node grow n [] exp h = Inr (leaf n, exp, h)"
  by simp

text \<open>
  Claim C7 says that a rest-of-path pattern matches one or more remaining segments
  and yields them, rejoined with slashes, as its expansion. For the pattern
  \<open>/*rest\<close> alone this is what \<open>Find\<close> does (lemmas \<open>star_at_root\<close> and
  \<open>star_not_at_root\<close>), and at every node of a well-formed trie a star is found
  for one or more remaining segments, unless an older leaf is, and not for none
  (lemmas \<open>star_found_below\<close> and \<open>star_not_without_segment\<close>). Its expansion is
  another matter. Below three wildcards it is not the rest of the path: with \<open>/:a/:b/:c/:d/zzz\<close>
  registered before \<open>/:a/:b/:c/*rest\<close> and the capacities that the gc runtime
  chooses, \<open>Find("/1/2/3/4/5")\<close> returns the star leaf with the expansions
  \<open>1, 2, 3, 4\<close>. The way to the star binds \<open>1, 2, 3\<close> and the rest \<open>4/5\<close>; the slice
  of the three values has a capacity of four, \<open>append(exp, starExpansion)\<close> writes
  \<open>4/5\<close> into the free cell, and the \<open>append\<close> for the edge \<open>:d\<close>, which accepts the
  segment \<open>4\<close>, writes \<open>4\<close> into the same cell although nothing is found below that
  edge.
\<close>

theorem star_expansion_overwritten:
  "snd (Add (fst (Add (New :: nat Node) ''/:a/:b/:c/:d/zzz'' 1)) ''/:a/:b/:c/*rest'' 2) = Inr (rest_leaf 2) \<and>
   splitPath ''/1/2/3/4/5'' = Inr ([''1'', ''2'', ''3'', ''4'', ''5''], False) \<and>
   matches (fst (Add (fst (Add (New :: nat Node) ''/:a/:b/:c/:d/zzz'' 1)) ''/:a/:b/:c/*rest'' 2))
     [''1'', ''2'', ''3'', ''4'', ''5''] = [rest_leaf 2] \<and>
   accepted_for (fst (Add (fst (Add (New :: nat Node) ''/:a/:b/:c/:d/zzz'' 1)) ''/:a/:b/:c/*rest'' 2)) ''/1/2/3/4/5'' =
     [(rest_leaf 2, [''1'', ''2'', ''3'', ''4/5''])] \<and>
   Find growslice (fst (Add (fst (Add (New :: nat Node) ''/:a/:b/:c/:d/zzz'' 1)) ''/:a/:b/:c/*rest'' 2)) ''/1/2/3/4/5'' =
     Inr (Some (rest_leaf 2), [''1'', ''2'', ''3'', ''4''])"
  by code_simp

subsection \<open>What the scan reads in a segment written by \<open>reverse\<close>\<close>








subsection \<open>A segment written by \<open>reverse\<close> matches its template\<close>





subsection \<open>The path written by \<open>reverse\<close>, split into segments\<close>







subsection \<open>The way from the root to a stored leaf\<close>

lemma plain_leaves_sel:
  "plain_leaves n = (case leaf n of None \<Rightarrow> [] | Some l \<Rightarrow> [l]) @ plain_leaves_edges (edges n)"
  by (cases n) simp











subsection \<open>\<open>Reverse\<close>, then \<open>Find\<close>\<close>










end
